theory Spec2Isabelle
  imports Main
begin

section \<open>synacksync: reconciliation of cache, upstream records and calendar\<close>

text \<open>
  A shallow embedding of \<^verbatim>\<open>compare_and_update\<close> and \<^verbatim>\<open>main\<close> of
  \<^verbatim>\<open>synacksync/synacksync.py\<close>, of the store operations of
  \<^verbatim>\<open>synacksync/database.py\<close> and of \<^verbatim>\<open>get_upcoming_events\<close>
  and \<^verbatim>\<open>delete_event\<close> of \<^verbatim>\<open>gcaltool/calendar_service.py\<close>.

  The dictionaries that the parsers and the SQL row factory build have a fixed key set
  per entry type, so an entry is a value of one datatype with a constructor per entry
  type; a subscript on a key that the entry does not have is a \<open>KeyError\<close>. Dates are
  instants (integers) and amounts are integers. A dictionary read back from a table is a
  \<open>row\<close>, a type of its own: it has the keys and the values of the entry that was
  written, except that a date comes back as the text that the sqlite3 adapter stored.
  The Google Calendar service and the SQLite file are outside the program: the calendar
  is a record of response functions, indexed by the number of calls logged so far, and a
  table is the list of its rows, with the \<open>id\<close> as its key.
\<close>

subsection \<open>Values\<close>

datatype error =
    KeyError string
  | HttpError
  | NameError string
  | SystemExit nat

datatype entry_type = task | target | patch_verification

datatype entry =
    Task
      (entry_id: string) (title: string) (description: string) (listing_codename: string)
      (time_given: int) (claimed_on: int) (max_completion_time: int)
      (payout_amount: int) (payout_currency: string) (event_id: "string option")
  | Target
      (entry_id: string) (category: string) (codename: string) (averagePayout: int)
      (isActive: bool) (start: int) (discovery: bool) (vuln_accepted: int)
      (dynamic_payment_percentage: string) (event_id: "string option")
  | PatchVerification
      (entry_id: string) (message: string) (expires: int) (vuln_id: string)
      (vuln_title: string) (event_id: "string option")

text \<open>\<^verbatim>\<open>api_entry["event_id"] = event_id\<close>\<close>

fun set_event_id :: "string option \<Rightarrow> entry \<Rightarrow> entry" where
  "set_event_id ev (Task i ti de lc tg co mc pa pc _) = Task i ti de lc tg co mc pa pc ev"
| "set_event_id ev (Target i ca cn ap ia st di va dp _) = Target i ca cn ap ia st di va dp ev"
| "set_event_id ev (PatchVerification i me ex vi vt _) = PatchVerification i me ex vi vt ev"

text \<open>
  \<^verbatim>\<open>"event_id" in db_entry and db_entry["event_id"]\<close>: the key is always there;
  \<open>None\<close> and the empty string are falsy.
\<close>

fun truthy :: "string option \<Rightarrow> bool" where
  "truthy None = False"
| "truthy (Some s) = (s \<noteq> [])"

text \<open>Python's \<^verbatim>\<open>str\<close> on the integers and booleans that the f-strings format.\<close>

fun str_nat :: "nat \<Rightarrow> string" where
  "str_nat n =
     (if n < 10 then [''0123456789'' ! n]
      else str_nat (n div 10) @ [''0123456789'' ! (n mod 10)])"

declare str_nat.simps [simp del]

definition str_int :: "int \<Rightarrow> string" where
  "str_int i = (if i < 0 then CHR ''-'' # str_nat (nat (- i)) else str_nat (nat i))"

definition str_bool :: "bool \<Rightarrow> string" where
  "str_bool b = (if b then ''True'' else ''False'')"

subsection \<open>The calendar service\<close>

text \<open>
  An event resource, with the keys the program reads or writes. A key that may be absent
  from a listed event is an option: an event without a title has no \<open>summary\<close>, an
  all-day event has no \<open>start.dateTime\<close>.
\<close>

record event =
  summary :: "string option"
  location :: "string option"
  ev_description :: "string option"
  start_dateTime :: "int option"
  end_dateTime :: "int option"

text \<open>
  The environment of a run: the responses of the calendar API (\<open>None\<close>: the request
  raises \<open>HttpError\<close>), the clock, and \<^verbatim>\<open>sanitize_text\<close>, whose two
  \<^verbatim>\<open>re.sub\<close> passes are taken as a function on strings. The first argument of a
  response function is the number of calls logged before the request, so that the same
  request may be answered differently at different moments; the second is the calendar.
\<close>

record env =
  sanitize_text :: "string \<Rightarrow> string"
  now :: int
  events_list :: "string \<Rightarrow> event list option"
  events_insert :: "nat \<Rightarrow> string \<Rightarrow> event \<Rightarrow> string option"
  events_get :: "nat \<Rightarrow> string \<Rightarrow> string \<Rightarrow> event option"
  events_update :: "nat \<Rightarrow> string \<Rightarrow> string \<Rightarrow> event \<Rightarrow> string option"
  events_delete :: "nat \<Rightarrow> string \<Rightarrow> string \<Rightarrow> bool"

text \<open>
  A Python dictionary with string keys, in insertion order: storing under a key that is
  present replaces the value and keeps the key's place.
\<close>

fun dict_set :: "string \<Rightarrow> 'v \<Rightarrow> (string \<times> 'v) list \<Rightarrow> (string \<times> 'v) list" where
  "dict_set k v [] = [(k, v)]"
| "dict_set k v ((k', v') # d) = (if k' = k then (k, v) # d else (k', v') # dict_set k v d)"

text \<open>
  \<^verbatim>\<open>{event['summary']: event for event in events_result.get('items', [])}\<close>,
  left to right.
\<close>

fun by_summary :: "(string \<times> event) list \<Rightarrow> event list \<Rightarrow> error + (string \<times> event) list" where
  "by_summary d [] = Inr d"
| "by_summary d (ev # evs) =
     (case summary ev of
        None \<Rightarrow> Inl (KeyError ''summary'')
      | Some s \<Rightarrow> by_summary (dict_set s ev d) evs)"

definition get_upcoming_events :: "env \<Rightarrow> string \<Rightarrow> error + (string \<times> event) list" where
  "get_upcoming_events e calendar_id =
     (case events_list e calendar_id of
        None \<Rightarrow> Inr []
      | Some items \<Rightarrow> by_summary [] items)"

text \<open>
  \<^verbatim>\<open>add_event\<close> of synacksync.py. It has no handler: a failing insert raises.
  The location is never passed by \<^verbatim>\<open>compare_and_update\<close>.
\<close>

definition add_event ::
  "env \<Rightarrow> nat \<Rightarrow> string \<Rightarrow> string \<Rightarrow> int \<Rightarrow> int \<Rightarrow> string \<Rightarrow> error + string" where
  "add_event e t calendar_id summ st en descr =
     (let body = \<lparr> summary = Some (sanitize_text e summ),
                   location = None,
                   ev_description = (if descr \<noteq> [] then Some (sanitize_text e descr) else None),
                   start_dateTime = Some st,
                   end_dateTime = Some en \<rparr>
      in case events_insert e t calendar_id body of
           None \<Rightarrow> Inl HttpError
         | Some new_id \<Rightarrow> Inr new_id)"

text \<open>
  \<^verbatim>\<open>edit_event\<close> of synacksync.py. Its handler is
  \<^verbatim>\<open>except googleapiclient.errors.HttpError\<close>, and synacksync.py never imports
  or binds \<^verbatim>\<open>googleapiclient\<close>: when a request in the \<^verbatim>\<open>try\<close> block
  raises, evaluating the handler's expression raises \<open>NameError\<close>, which leaves the
  function.
\<close>

definition edit_event ::
  "env \<Rightarrow> nat \<Rightarrow> string \<Rightarrow> string \<Rightarrow> string \<Rightarrow> int \<Rightarrow> int \<Rightarrow> string \<Rightarrow> error + string" where
  "edit_event e t calendar_id ev_id summ st en descr =
     (case events_get e t calendar_id ev_id of
        None \<Rightarrow> Inl (NameError ''googleapiclient'')
      | Some ev0 \<Rightarrow>
          (let ev1 = (if summ \<noteq> [] then ev0\<lparr>summary := Some (sanitize_text e summ)\<rparr> else ev0);
               ev2 = ev1\<lparr>start_dateTime := Some st\<rparr>;
               ev3 = ev2\<lparr>end_dateTime := Some en\<rparr>;
               ev4 = (if descr \<noteq> [] then ev3\<lparr>ev_description := Some (sanitize_text e descr)\<rparr>
                      else ev3)
           in case events_update e t calendar_id ev_id ev4 of
                None \<Rightarrow> Inl (NameError ''googleapiclient'')
              | Some updated_id \<Rightarrow> Inr updated_id))"

text \<open>
  \<^verbatim>\<open>delete_event\<close> of calendar_service.py catches every exception: it returns
  in both cases. The result here only records whether the request went through.
\<close>

definition delete_event :: "env \<Rightarrow> nat \<Rightarrow> string \<Rightarrow> string \<Rightarrow> bool" where
  "delete_event e t calendar_id ev_id = events_delete e t calendar_id ev_id"

subsection \<open>The store\<close>

text \<open>
  The dictionary that \<^verbatim>\<open>dict_factory\<close> builds from a row of a table. The
  connection is opened without \<^verbatim>\<open>detect_types\<close>: a datetime is written as
  text by the sqlite3 adapter and comes back as a \<^verbatim>\<open>str\<close>. \<open>Row x\<close> is the
  dictionary read back after the entry \<open>x\<close> was written: the keys and values of \<open>x\<close>,
  with the text of each date in the place of the date.
\<close>

datatype row = Row (entry_of: entry)

definition row_id :: "row \<Rightarrow> string" where
  "row_id r = entry_id (entry_of r)"

text \<open>
  A table with primary key \<open>id\<close>: its rows in insertion order.
  \<^verbatim>\<open>INSERT OR REPLACE\<close> removes the row with the same key and adds the new row.
\<close>

type_synonym table = "row list"

definition sql_delete :: "string \<Rightarrow> table \<Rightarrow> table" where
  "sql_delete i tbl = filter (\<lambda>r. row_id r \<noteq> i) tbl"

definition sql_insert_or_replace :: "entry \<Rightarrow> table \<Rightarrow> table" where
  "sql_insert_or_replace item tbl = sql_delete (entry_id item) tbl @ [Row item]"

definition row_of :: "table \<Rightarrow> string \<Rightarrow> row option" where
  "row_of tbl i = find (\<lambda>r. row_id r = i) tbl"

text \<open>
  The three save functions of database.py. The row written holds the columns of the
  table, which are the keys of the entry; an entry of another type lacks one of them.
  Nothing is committed when a subscript raises.
\<close>

fun save_tasks_to_db :: "entry list \<Rightarrow> bool \<Rightarrow> table \<Rightarrow> error + table" where
  "save_tasks_to_db [] del tbl = Inr tbl"
| "save_tasks_to_db (item # data) del tbl =
     (if del then save_tasks_to_db data del (sql_delete (entry_id item) tbl)
      else (case item of
              Task _ _ _ _ _ _ _ _ _ _ \<Rightarrow>
                save_tasks_to_db data del (sql_insert_or_replace item tbl)
            | _ \<Rightarrow> Inl (KeyError ''title'')))"

fun save_targets_to_db :: "entry list \<Rightarrow> bool \<Rightarrow> table \<Rightarrow> error + table" where
  "save_targets_to_db [] del tbl = Inr tbl"
| "save_targets_to_db (item # data) del tbl =
     (if del then save_targets_to_db data del (sql_delete (entry_id item) tbl)
      else (case item of
              Target _ _ _ _ _ _ _ _ _ _ \<Rightarrow>
                save_targets_to_db data del (sql_insert_or_replace item tbl)
            | _ \<Rightarrow> Inl (KeyError ''category'')))"

fun save_patch_verifications_to_db :: "entry list \<Rightarrow> bool \<Rightarrow> table \<Rightarrow> error + table" where
  "save_patch_verifications_to_db [] del tbl = Inr tbl"
| "save_patch_verifications_to_db (item # data) del tbl =
     (if del then save_patch_verifications_to_db data del (sql_delete (entry_id item) tbl)
      else (case item of
              PatchVerification _ _ _ _ _ _ \<Rightarrow>
                save_patch_verifications_to_db data del (sql_insert_or_replace item tbl)
            | _ \<Rightarrow> Inl (KeyError ''message'')))"

text \<open>
  \<^verbatim>\<open>get_upcoming_entries\<close>, one query:
  \<^verbatim>\<open>SELECT ... WHERE max_completion_time > ?\<close> (or \<open>start\<close>, or \<open>expires\<close>)
  with the parameter \<^verbatim>\<open>datetime.datetime.now().timestamp()\<close>, a float. The column
  holds what the adapter wrote for the date, a text that is no number, and SQLite orders
  a text above every number: the comparison is true of every row the program wrote.
\<close>

datatype sql_value = SqlNull | SqlNumber int | SqlText int

fun sql_greater :: "sql_value \<Rightarrow> int \<Rightarrow> bool" where
  "sql_greater SqlNull number = False"
| "sql_greater (SqlNumber x) number = (number < x)"
| "sql_greater (SqlText t) number = True"

fun timestamp_column :: "row \<Rightarrow> sql_value" where
  "timestamp_column (Row (Task _ _ _ _ _ _ mc _ _ _)) = SqlText mc"
| "timestamp_column (Row (Target _ _ _ _ _ st _ _ _ _)) = SqlText st"
| "timestamp_column (Row (PatchVerification _ _ ex _ _ _)) = SqlText ex"

definition get_upcoming_entries :: "int \<Rightarrow> table \<Rightarrow> row list" where
  "get_upcoming_entries current tbl =
     filter (\<lambda>r. sql_greater (timestamp_column r) current) tbl"

subsection \<open>compare_and_update\<close>

text \<open>
  The calls that \<^verbatim>\<open>compare_and_update\<close> makes, in order, with their arguments;
  the calendar calls also carry the \<open>id\<close> of the record they are made for and their
  result (\<open>None\<close>: the call raised).
\<close>

datatype call =
    AddEvent string string string int int string "string option"
  | EditEvent string string string string int int string "string option"
  | DeleteEvent string string string bool
  | SaveToDb entry_type entry bool

fun call_id :: "call \<Rightarrow> string" where
  "call_id (AddEvent calendar_id i summ st en descr r) = i"
| "call_id (EditEvent calendar_id i ev_id summ st en descr r) = i"
| "call_id (DeleteEvent calendar_id i ev_id ok) = i"
| "call_id (SaveToDb et item del) = entry_id item"

definition calls_for :: "string \<Rightarrow> call list \<Rightarrow> call list" where
  "calls_for i tr = filter (\<lambda>c. call_id c = i) tr"

record world =
  db :: table
  trace :: "call list"

text \<open>
  \<^verbatim>\<open>{entry[key]: entry for entry in entries}\<close>, left to right, for the fetched
  entries and for the rows; \<open>key\<close> reads the \<open>id\<close>.
\<close>

fun index_entries :: "('a \<Rightarrow> string) \<Rightarrow> (string \<times> 'a) list \<Rightarrow> 'a list \<Rightarrow> (string \<times> 'a) list" where
  "index_entries key d [] = d"
| "index_entries key d (x # xs) = index_entries key (dict_set (key x) x d) xs"

definition index_by_id :: "entry list \<Rightarrow> (string \<times> entry) list" where
  "index_by_id entries = index_entries entry_id [] entries"

definition index_rows_by_id :: "row list \<Rightarrow> (string \<times> row) list" where
  "index_rows_by_id rows = index_entries row_id [] rows"

text \<open>
  \<^verbatim>\<open>db_entry == api_entry\<close> for a row and a fetched entry: two dictionaries are
  equal when they have the same keys and equal values. A \<^verbatim>\<open>str\<close> and a
  \<^verbatim>\<open>datetime\<close> are never equal, and every kind of entry has a date.
\<close>

definition str_eq_datetime :: "int \<Rightarrow> int \<Rightarrow> bool" where
  "str_eq_datetime text date = False"

fun dict_eq :: "row \<Rightarrow> entry \<Rightarrow> bool" where
  "dict_eq (Row (Task i ti de lc tg co mc pa pc ev)) (Task i' ti' de' lc' tg' co' mc' pa' pc' ev') =
     (i = i' \<and> ti = ti' \<and> de = de' \<and> lc = lc' \<and> tg = tg' \<and> str_eq_datetime co co'
        \<and> str_eq_datetime mc mc' \<and> pa = pa' \<and> pc = pc' \<and> ev = ev')"
| "dict_eq (Row (Target i ca cn ap ia st di va dp ev)) (Target i' ca' cn' ap' ia' st' di' va' dp' ev') =
     (i = i' \<and> ca = ca' \<and> cn = cn' \<and> ap = ap' \<and> ia = ia' \<and> str_eq_datetime st st'
        \<and> di = di' \<and> va = va' \<and> dp = dp' \<and> ev = ev')"
| "dict_eq (Row (PatchVerification i me ex vi vt ev)) (PatchVerification i' me' ex' vi' vt' ev') =
     (i = i' \<and> me = me' \<and> str_eq_datetime ex ex' \<and> vi = vi' \<and> vt = vt' \<and> ev = ev')"
| "dict_eq r x = False"

text \<open>
  The summary, start, end and description of the event of an entry. Every key read with
  \<^verbatim>\<open>get\<close> is present in an entry of the right type, so no default is used, except
  \<open>start\<close> of a patch verification, which has no such key: its start is the current time.
\<close>

fun render :: "env \<Rightarrow> entry_type \<Rightarrow> entry \<Rightarrow> error + (string \<times> int \<times> int \<times> string)" where
  "render e task (Task i ti de lc tg co mc pa pc ev) =
     Inr (str_int pa @ '' - '' @ ti @ '' - '' @ lc, co, mc, de)"
| "render e task _ = Inl (KeyError ''title'')"
| "render e target (Target i ca cn ap ia st di va dp ev) =
     Inr (cn, st, st,
          ''Category: '' @ ca @ '', Discovery: '' @ str_bool di @ '', Vuln Accepted: '' @ str_int va
            @ '', Dynamic Payment Percentage: '' @ dp)"
| "render e target _ = Inl (KeyError ''codename'')"
| "render e patch_verification (PatchVerification i me ex vi vt ev) =
     Inr (''Patch Verification for '' @ vt, now e, ex, me)"
| "render e patch_verification _ = Inl (KeyError ''vuln_title'')"

text \<open>The search through \<^verbatim>\<open>upcoming_events.values()\<close>, which stops at a match.\<close>

fun event_exists :: "event list \<Rightarrow> string \<Rightarrow> int \<Rightarrow> error + bool" where
  "event_exists [] summ st = Inr False"
| "event_exists (ev # evs) summ st =
     (case start_dateTime ev of
        None \<Rightarrow> Inl (KeyError ''dateTime'')
      | Some event_start \<Rightarrow>
          (case summary ev of
             None \<Rightarrow> Inl (KeyError ''summary'')
           | Some s \<Rightarrow>
               if s = summ \<and> event_start = st then Inr True else event_exists evs summ st))"

text \<open>The \<^verbatim>\<open>if entry_type == ...\<close> chain that picks the save function.\<close>

definition save_entry :: "entry_type \<Rightarrow> entry \<Rightarrow> bool \<Rightarrow> world \<Rightarrow> error option \<times> world" where
  "save_entry et item del w =
     (let w1 = w\<lparr>trace := trace w @ [SaveToDb et item del]\<rparr>
      in case (case et of
                 task \<Rightarrow> save_tasks_to_db [item] del (db w)
               | target \<Rightarrow> save_targets_to_db [item] del (db w)
               | patch_verification \<Rightarrow> save_patch_verifications_to_db [item] del (db w)) of
           Inl err \<Rightarrow> (Some err, w1)
         | Inr tbl \<Rightarrow> (None, w1\<lparr>db := tbl\<rparr>))"

text \<open>
  \<^verbatim>\<open>event_id = add_event(...); api_entry["event_id"] = event_id\<close> and the save,
  which the source writes out twice. The assignment changes the fetched entry in place;
  the only later reader of the changed entry is the save.
\<close>

definition create_and_save ::
  "env \<Rightarrow> entry_type \<Rightarrow> string \<Rightarrow> string \<Rightarrow> entry \<Rightarrow> string \<Rightarrow> int \<Rightarrow> int \<Rightarrow> string \<Rightarrow> world
     \<Rightarrow> error option \<times> world" where
  "create_and_save e et calendar_id api_id api_entry summ st en descr w =
     (case add_event e (length (trace w)) calendar_id summ st en descr of
        Inl err \<Rightarrow>
          (Some err, w\<lparr>trace := trace w @ [AddEvent calendar_id api_id summ st en descr None]\<rparr>)
      | Inr new_id \<Rightarrow>
          save_entry et (set_event_id (Some new_id) api_entry) False
            (w\<lparr>trace := trace w @ [AddEvent calendar_id api_id summ st en descr (Some new_id)]\<rparr>))"

definition update_and_save ::
  "env \<Rightarrow> entry_type \<Rightarrow> string \<Rightarrow> string \<Rightarrow> string \<Rightarrow> entry \<Rightarrow> string \<Rightarrow> int \<Rightarrow> int \<Rightarrow> string
     \<Rightarrow> world \<Rightarrow> error option \<times> world" where
  "update_and_save e et calendar_id api_id ev_id api_entry summ st en descr w =
     (case edit_event e (length (trace w)) calendar_id ev_id summ st en descr of
        Inl err \<Rightarrow>
          (Some err,
           w\<lparr>trace := trace w @ [EditEvent calendar_id api_id ev_id summ st en descr None]\<rparr>)
      | Inr new_id \<Rightarrow>
          save_entry et (set_event_id (Some new_id) api_entry) False
            (w\<lparr>trace := trace w
                  @ [EditEvent calendar_id api_id ev_id summ st en descr (Some new_id)]\<rparr>))"

text \<open>
  The body of the loop over \<^verbatim>\<open>api_dict.items()\<close>. The test
  \<^verbatim>\<open>db_entry != api_entry\<close> compares the two dictionaries key by key, the
  \<open>event_id\<close> and the dates included.
\<close>

definition sync_api_entry ::
  "env \<Rightarrow> entry_type \<Rightarrow> string \<Rightarrow> (string \<times> event) list \<Rightarrow> (string \<times> row) list
     \<Rightarrow> string \<Rightarrow> entry \<Rightarrow> world \<Rightarrow> error option \<times> world" where
  "sync_api_entry e et calendar_id upcoming_events db_dict api_id api_entry w =
     (case render e et api_entry of
        Inl err \<Rightarrow> (Some err, w)
      | Inr (summ, st, en, descr) \<Rightarrow>
          (case event_exists (map snd upcoming_events) summ st of
             Inl err \<Rightarrow> (Some err, w)
           | Inr True \<Rightarrow> (None, w)
           | Inr False \<Rightarrow>
               (case map_of db_dict api_id of
                  Some db_entry \<Rightarrow>
                    if \<not> dict_eq db_entry api_entry then
                      (case event_id (entry_of db_entry) of
                         None \<Rightarrow>
                           create_and_save e et calendar_id api_id api_entry summ st en descr w
                       | Some ev_id \<Rightarrow>
                           if ev_id \<noteq> [] then
                             update_and_save e et calendar_id api_id ev_id api_entry
                               summ st en descr w
                           else
                             create_and_save e et calendar_id api_id api_entry summ st en descr w)
                    else (None, w)
                | None \<Rightarrow>
                    create_and_save e et calendar_id api_id api_entry summ st en descr w)))"

fun api_loop ::
  "env \<Rightarrow> entry_type \<Rightarrow> string \<Rightarrow> (string \<times> event) list \<Rightarrow> (string \<times> row) list
     \<Rightarrow> (string \<times> entry) list \<Rightarrow> world \<Rightarrow> error option \<times> world" where
  "api_loop e et calendar_id upcoming_events db_dict [] w = (None, w)"
| "api_loop e et calendar_id upcoming_events db_dict ((api_id, api_entry) # rest) w =
     (case sync_api_entry e et calendar_id upcoming_events db_dict api_id api_entry w of
        (Some err, w1) \<Rightarrow> (Some err, w1)
      | (None, w1) \<Rightarrow> api_loop e et calendar_id upcoming_events db_dict rest w1)"

text \<open>
  The body of the loop over \<^verbatim>\<open>db_dict.items()\<close>. The save function is given the
  row; with \<^verbatim>\<open>delete=True\<close> it reads its \<open>id\<close> only.
\<close>

definition sync_db_entry ::
  "env \<Rightarrow> entry_type \<Rightarrow> string \<Rightarrow> (string \<times> entry) list \<Rightarrow> string \<Rightarrow> row \<Rightarrow> world
     \<Rightarrow> error option \<times> world" where
  "sync_db_entry e et calendar_id api_dict db_id db_entry w =
     (if map_of api_dict db_id = None then
        (let w1 = (case event_id (entry_of db_entry) of
                     None \<Rightarrow> w
                   | Some ev_id \<Rightarrow>
                       if ev_id \<noteq> [] then
                         w\<lparr>trace := trace w
                              @ [DeleteEvent calendar_id db_id ev_id
                                   (delete_event e (length (trace w)) calendar_id ev_id)]\<rparr>
                       else w)
         in save_entry et (entry_of db_entry) True w1)
      else (None, w))"

fun db_loop ::
  "env \<Rightarrow> entry_type \<Rightarrow> string \<Rightarrow> (string \<times> entry) list \<Rightarrow> (string \<times> row) list \<Rightarrow> world
     \<Rightarrow> error option \<times> world" where
  "db_loop e et calendar_id api_dict [] w = (None, w)"
| "db_loop e et calendar_id api_dict ((db_id, db_entry) # rest) w =
     (case sync_db_entry e et calendar_id api_dict db_id db_entry w of
        (Some err, w1) \<Rightarrow> (Some err, w1)
      | (None, w1) \<Rightarrow> db_loop e et calendar_id api_dict rest w1)"

text \<open>
  \<^verbatim>\<open>compare_and_update(db_entries, api_entries, entry_type, service, calendar_id)\<close>.
  The result is the exception that ended the call, if any, and the store and calls at
  that point.
\<close>

definition compare_and_update ::
  "env \<Rightarrow> row list \<Rightarrow> entry list \<Rightarrow> entry_type \<Rightarrow> string \<Rightarrow> world \<Rightarrow> error option \<times> world" where
  "compare_and_update e db_entries api_entries et calendar_id w =
     (case get_upcoming_events e calendar_id of
        Inl err \<Rightarrow> (Some err, w)
      | Inr upcoming_events \<Rightarrow>
          (let db_dict = index_rows_by_id db_entries;
               api_dict = index_by_id api_entries
           in case api_loop e et calendar_id upcoming_events db_dict api_dict w of
                (Some err, w1) \<Rightarrow> (Some err, w1)
              | (None, w1) \<Rightarrow> db_loop e et calendar_id api_dict db_dict w1))"

subsection \<open>main\<close>

text \<open>
  An HTTP response of the Synack API: its status code and, for a 200, the entries that
  the \<^verbatim>\<open>parse_*_response\<close> function builds from its body.
\<close>

datatype response = Response (status_code: nat) (parsed: "entry list")

text \<open>
  \<^verbatim>\<open>fetch_patch_verifications\<close> and \<^verbatim>\<open>fetch_tasks\<close> print a message
  and return the empty list on every status but 200; \<^verbatim>\<open>fetch_targets\<close> calls
  \<^verbatim>\<open>exit(1)\<close> instead.
\<close>

definition fetch_patch_verifications :: "response \<Rightarrow> entry list" where
  "fetch_patch_verifications response =
     (if status_code response = 200 then parsed response else [])"

definition fetch_tasks :: "response \<Rightarrow> entry list" where
  "fetch_tasks response = (if status_code response = 200 then parsed response else [])"

definition fetch_targets :: "response \<Rightarrow> error + entry list" where
  "fetch_targets response =
     (if status_code response = 200 then Inr (parsed response)
      else if status_code response = 401 then Inl (SystemExit 1)
      else Inl (SystemExit 1))"

text \<open>
  The three calendar ids of the configuration (\<^verbatim>\<open>config.get\<close> gives
  \<open>None\<close> for a missing key) and the three tables of the database.
\<close>

record config =
  mission_calendar :: "string option"
  patch_calendar :: "string option"
  upcoming_calendar :: "string option"

record store =
  tasks :: table
  targets :: table
  patch_verifications :: table

text \<open>
  \<^verbatim>\<open>main\<close>: it returns at once when a calendar id is missing; the tables exist
  (\<^verbatim>\<open>setup_database\<close> creates them when the file is new); it reads the
  upcoming rows of the three tables, fetches the three lists, and reconciles tasks,
  targets and patch verifications in this order. An exception ends it where it is raised.
  The result is the exception, if any, the tables and the calls made.
\<close>

definition main ::
  "env \<Rightarrow> config \<Rightarrow> response \<Rightarrow> response \<Rightarrow> response \<Rightarrow> store
     \<Rightarrow> error option \<times> store \<times> call list" where
  "main e cfg pv_response tasks_response targets_response s =
     (if \<not> truthy (mission_calendar cfg) \<or> \<not> truthy (patch_calendar cfg)
           \<or> \<not> truthy (upcoming_calendar cfg)
      then (None, s, [])
      else
        (let mission_calendar_id = the (mission_calendar cfg);
             patch_calendar_id = the (patch_calendar cfg);
             upcoming_calendar_id = the (upcoming_calendar cfg);
             db_tasks = get_upcoming_entries (now e) (tasks s);
             db_targets = get_upcoming_entries (now e) (targets s);
             db_patch_verifications = get_upcoming_entries (now e) (patch_verifications s);
             api_patch_verifications = fetch_patch_verifications pv_response;
             api_tasks = fetch_tasks tasks_response
         in case fetch_targets targets_response of
              Inl err \<Rightarrow> (Some err, s, [])
            | Inr api_targets \<Rightarrow>
                (case compare_and_update e db_tasks api_tasks task mission_calendar_id
                        \<lparr>db = tasks s, trace = []\<rparr> of
                   (Some err, w1) \<Rightarrow> (Some err, s\<lparr>tasks := db w1\<rparr>, trace w1)
                 | (None, w1) \<Rightarrow>
                     (case compare_and_update e db_targets api_targets target upcoming_calendar_id
                             \<lparr>db = targets s, trace = trace w1\<rparr> of
                        (Some err, w2) \<Rightarrow>
                          (Some err, s\<lparr>tasks := db w1, targets := db w2\<rparr>, trace w2)
                      | (None, w2) \<Rightarrow>
                          (case compare_and_update e db_patch_verifications
                                  api_patch_verifications patch_verification patch_calendar_id
                                  \<lparr>db = patch_verifications s, trace = trace w2\<rparr> of
                             (r, w3) \<Rightarrow>
                               (r, s\<lparr>tasks := db w1, targets := db w2,
                                      patch_verifications := db w3\<rparr>, trace w3))))))"

subsection \<open>Example inputs\<close>

text \<open>
  A calendar that accepts every request and lists no event, a configuration, and a few
  entries and events; then calendars that refuse one kind of request or list events.
\<close>

definition calendar_ok :: env where
  "calendar_ok =
     \<lparr> sanitize_text = (\<lambda>text. text),
       now = 50,
       events_list = (\<lambda>calendar_id. Some []),
       events_insert = (\<lambda>t calendar_id body. Some ''ev1''),
       events_get = (\<lambda>t calendar_id ev_id.
          Some \<lparr> summary = None, location = None, ev_description = None,
                 start_dateTime = None, end_dateTime = None \<rparr>),
       events_update = (\<lambda>t calendar_id ev_id body. if ev_id = [] then None else Some ev_id),
       events_delete = (\<lambda>t calendar_id ev_id. True) \<rparr>"

definition calendars :: config where
  "calendars = \<lparr> mission_calendar = Some ''m'', patch_calendar = Some ''p'',
                 upcoming_calendar = Some ''u'' \<rparr>"

definition task1 :: "string option \<Rightarrow> entry" where
  "task1 ev = Task ''t1'' ''Fix XSS'' ''d'' ''alpha'' 3600 100 3700 500 ''USD'' ev"

definition task2 :: "string option \<Rightarrow> entry" where
  "task2 ev = Task ''t2'' ''Check headers'' ''e'' ''beta'' 600 150 750 20 ''USD'' ev"

definition target1 :: "string option \<Rightarrow> entry" where
  "target1 ev = Target ''acme'' ''Web'' ''ACME'' 100 True 200 False 3 ''0.0'' ev"

definition event_at :: "int \<Rightarrow> event" where
  "event_at st =
     \<lparr> summary = Some ''500 - Fix XSS - alpha'', location = None, ev_description = Some ''d'',
       start_dateTime = Some st, end_dateTime = Some 3700 \<rparr>"

definition calendar_insert_fails :: env where
  "calendar_insert_fails =
     calendar_ok\<lparr> events_insert := (\<lambda>t calendar_id body.
        if summary body = Some ''500 - Fix XSS - alpha'' then None else Some ''ev2'') \<rparr>"

definition calendar_delete_fails :: env where
  "calendar_delete_fails = calendar_ok\<lparr> events_delete := (\<lambda>t calendar_id ev_id. False) \<rparr>"

definition calendar_earlier_match :: env where
  "calendar_earlier_match =
     calendar_ok\<lparr> events_list := (\<lambda>calendar_id. Some [event_at 100, event_at 200]) \<rparr>"

definition calendar_last_match :: env where
  "calendar_last_match =
     calendar_ok\<lparr> events_list := (\<lambda>calendar_id. Some [event_at 200, event_at 100]) \<rparr>"

definition calendar_late :: env where
  "calendar_late = calendar_ok\<lparr> now := 4000 \<rparr>"

subsection \<open>Predicates of the proofs\<close>

text \<open>
  \<open>untouched i\<close>: no call was added for the id \<open>i\<close> and its row is as it was.
  \<open>step_for j\<close>: every call added is for \<open>j\<close> and every other row is as it was.
\<close>

definition untouched :: "string \<Rightarrow> world \<Rightarrow> world \<Rightarrow> bool" where
  "untouched i w w' \<longleftrightarrow>
     calls_for i (trace w') = calls_for i (trace w) \<and> row_of (db w') i = row_of (db w) i"

definition step_for :: "string \<Rightarrow> world \<Rightarrow> world \<Rightarrow> bool" where
  "step_for j w w' \<longleftrightarrow>
     (\<exists>new. trace w' = trace w @ new \<and> (\<forall>c \<in> set new. call_id c = j)) \<and>
     (\<forall>i. i \<noteq> j \<longrightarrow> row_of (db w') i = row_of (db w) i)"

text \<open>
  Kinds of calls: a create that raised, a delete of an event or of a row, a create.
\<close>

fun failed_create :: "call \<Rightarrow> bool" where
  "failed_create (AddEvent calendar_id i summ st en descr None) = True"
| "failed_create _ = False"

fun deletes :: "call \<Rightarrow> bool" where
  "deletes (DeleteEvent calendar_id i ev_id ok) = True"
| "deletes (SaveToDb et item del) = del"
| "deletes _ = False"

fun creates :: "call \<Rightarrow> bool" where
  "creates (AddEvent calendar_id i summ st en descr r) = True"
| "creates _ = False"

text \<open>
  What the first loop leaves behind for an entry it has passed without an exception: the
  entry is matched by an upcoming event, or its row compares equal to it or carries an
  event id.
\<close>

definition settled ::
  "env \<Rightarrow> entry_type \<Rightarrow> (string \<times> event) list \<Rightarrow> entry \<Rightarrow> row option \<Rightarrow> bool" where
  "settled e et upcoming_events x row \<longleftrightarrow>
     (case render e et x of
        Inl err \<Rightarrow> False
      | Inr (summ, st, en, descr) \<Rightarrow>
          (case event_exists (map snd upcoming_events) summ st of
             Inl err \<Rightarrow> False
           | Inr True \<Rightarrow> True
           | Inr False \<Rightarrow>
               (case row of
                  None \<Rightarrow> False
                | Some y \<Rightarrow> dict_eq y x \<or> truthy (event_id (entry_of y)))))"

subsection \<open>Dictionaries and tables\<close>

lemma entry_id_set_event_id [simp]: "entry_id (set_event_id ev x) = entry_id x"
  by (cases x) simp_all

lemma event_id_set_event_id [simp]: "event_id (set_event_id ev x) = ev"
  by (cases x) simp_all

lemma map_of_dict_set: "map_of (dict_set k v d) = (map_of d)(k \<mapsto> v)"
  by (induction d) (auto simp: fun_eq_iff)

lemma keys_dict_set:
  "map fst (dict_set k v d) = (if k \<in> set (map fst d) then map fst d else map fst d @ [k])"
  by (induction k v d rule: dict_set.induct) (auto simp: rev_image_eqI)

lemma set_dict_set: "set (dict_set k v d) \<subseteq> insert (k, v) (set d)"
  by (induction k v d rule: dict_set.induct) auto

lemma find_app:
  "find P (xs @ ys) = (case find P xs of None \<Rightarrow> find P ys | Some x \<Rightarrow> Some x)"
  by (induction xs) auto

lemma distinct_dict_set: "distinct (map fst d) \<Longrightarrow> distinct (map fst (dict_set k v d))"
  by (simp add: keys_dict_set)

lemma dict_set_fresh: "k \<notin> fst ` set d \<Longrightarrow> dict_set k v d = d @ [(k, v)]"
  by (induction d) auto

lemma map_of_index_entries:
  "map_of (index_entries key d xs) i =
     (case find (\<lambda>x. key x = i) (rev xs) of None \<Rightarrow> map_of d i | Some x \<Rightarrow> Some x)"
  by (induction xs arbitrary: d) (auto simp: map_of_dict_set find_app split: option.splits)

lemma distinct_index_entries:
  "distinct (map fst d) \<Longrightarrow> distinct (map fst (index_entries key d xs))"
  by (induction xs arbitrary: d) (auto simp: distinct_dict_set)

lemma keyed_dict_set:
  "\<forall>p \<in> set d. key (snd p) = fst p \<Longrightarrow> key v = k \<Longrightarrow> \<forall>p \<in> set (dict_set k v d). key (snd p) = fst p"
  using set_dict_set[of k v d] by auto

lemma keyed_index_entries:
  "\<forall>p \<in> set d. key (snd p) = fst p \<Longrightarrow> \<forall>p \<in> set (index_entries key d xs). key (snd p) = fst p"
proof (induction xs arbitrary: d)
  case Nil then show ?case by simp
next
  case (Cons x xs)
  have "\<forall>p \<in> set (dict_set (key x) x d). key (snd p) = fst p"
    using Cons.prems by (rule keyed_dict_set) simp
  then show ?case using Cons.IH by simp
qed

lemma index_entries_own:
  "distinct (map fst d') \<Longrightarrow> \<forall>p \<in> set d'. key (snd p) = fst p \<Longrightarrow> fst ` set d \<inter> fst ` set d' = {}
    \<Longrightarrow> index_entries key d (map snd d') = d @ d'"
proof (induction d' arbitrary: d)
  case Nil then show ?case by simp
next
  case (Cons p d')
  obtain k v where p: "p = (k, v)" by (cases p)
  from Cons.prems p have kv: "key v = k" and fresh: "k \<notin> fst ` set d" by auto
  have step: "dict_set (key v) v d = d @ [(k, v)]" using kv fresh by (simp add: dict_set_fresh)
  have "index_entries key (d @ [(k, v)]) (map snd d') = (d @ [(k, v)]) @ d'"
    using Cons.prems p by (intro Cons.IH) auto
  then show ?case using p step by simp
qed

lemma index_by_id_idem: "index_by_id (map snd (index_by_id xs)) = index_by_id xs"
  unfolding index_by_id_def
  using index_entries_own[where d = "[]" and d' = "index_entries entry_id [] xs" and key = entry_id]
    distinct_index_entries[of "[]" entry_id xs] keyed_index_entries[of "[]" entry_id xs]
  by simp

lemma untouched_refl [simp]: "untouched i w w"
  by (simp add: untouched_def)

lemma untouched_trans: "untouched i w w1 \<Longrightarrow> untouched i w1 w2 \<Longrightarrow> untouched i w w2"
  by (simp add: untouched_def)

lemma step_for_refl [simp]: "step_for j w w"
  by (simp add: step_for_def)

lemma step_for_trans: "step_for j w w1 \<Longrightarrow> step_for j w1 w2 \<Longrightarrow> step_for j w w2"
  unfolding step_for_def by (elim conjE exE) (rule conjI, rule_tac x="new @ newa" in exI, auto)

lemma step_for_untouched: "step_for j w w' \<Longrightarrow> i \<noteq> j \<Longrightarrow> untouched i w w'"
  by (auto simp: step_for_def untouched_def calls_for_def)

lemma row_id_Row [simp]: "row_id (Row x) = entry_id x"
  by (simp add: row_id_def)

lemma dict_eq_event_id: "dict_eq y x \<Longrightarrow> event_id (entry_of y) = event_id x"
  by (induction y x rule: dict_eq.induct) simp_all

lemma dict_eq_False [simp]: "dict_eq y x = False"
  by (induction y x rule: dict_eq.induct) (simp_all add: str_eq_datetime_def)

lemma row_of_sql_delete: "row_of (sql_delete i tbl) j = (if j = i then None else row_of tbl j)"
  by (induction tbl) (auto simp: row_of_def sql_delete_def)

lemma row_of_append:
  "row_of (tbl @ tbl') j = (case row_of tbl j of None \<Rightarrow> row_of tbl' j | Some x \<Rightarrow> Some x)"
  unfolding row_of_def by (rule find_app)

lemma row_of_insert_or_replace:
  "row_of (sql_insert_or_replace x tbl) j = (if j = entry_id x then Some (Row x) else row_of tbl j)"
  by (auto simp: sql_insert_or_replace_def row_of_append row_of_sql_delete split: option.splits)
     (simp_all add: row_of_def)

lemma save_entry_delete:
  "save_entry et item True w =
     (None, w\<lparr>trace := trace w @ [SaveToDb et item True], db := sql_delete (entry_id item) (db w)\<rparr>)"
  by (cases et) (simp_all add: save_entry_def)

lemma save_entry_insert:
  assumes "save_entry et item False w = (r, w')"
  shows "trace w' = trace w @ [SaveToDb et item False]"
    and "r = None \<Longrightarrow> db w' = sql_insert_or_replace item (db w)"
    and "r \<noteq> None \<Longrightarrow> db w' = db w"
  using assms by (cases et; cases item; auto simp: save_entry_def)+

lemma save_entry_step: "save_entry et item del w = (r, w') \<Longrightarrow> step_for (entry_id item) w w'"
proof (cases del)
  case True
  assume "save_entry et item del w = (r, w')"
  with True show ?thesis by (auto simp: save_entry_delete step_for_def row_of_sql_delete)
next
  case False
  assume a: "save_entry et item del w = (r, w')"
  show ?thesis
  proof (cases r)
    case None
    with save_entry_insert[of et item w r w'] a False show ?thesis
      by (auto simp: step_for_def row_of_insert_or_replace)
  next
    case (Some x)
    with save_entry_insert[of et item w r w'] a False show ?thesis
      by (auto simp: step_for_def)
  qed
qed

lemma create_and_save_step:
  assumes "create_and_save e et cal api_id api_entry summ st en descr w = (r, w')"
    and "entry_id api_entry = api_id"
  shows "step_for api_id w w'"
proof (cases "add_event e (length (trace w)) cal summ st en descr")
  case (Inl err)
  with assms show ?thesis by (auto simp: create_and_save_def step_for_def)
next
  case (Inr new_id)
  let ?w1 = "w\<lparr>trace := trace w @ [AddEvent cal api_id summ st en descr (Some new_id)]\<rparr>"
  have 1: "step_for api_id w ?w1" by (simp add: step_for_def)
  from assms Inr have "save_entry et (set_event_id (Some new_id) api_entry) False ?w1 = (r, w')"
    by (simp add: create_and_save_def)
  then have "step_for api_id ?w1 w'" using save_entry_step assms(2) by fastforce
  with 1 show ?thesis by (rule step_for_trans)
qed

lemma update_and_save_step:
  assumes "update_and_save e et cal api_id ev_id api_entry summ st en descr w = (r, w')"
    and "entry_id api_entry = api_id"
  shows "step_for api_id w w'"
proof (cases "edit_event e (length (trace w)) cal ev_id summ st en descr")
  case (Inl err)
  with assms show ?thesis by (auto simp: update_and_save_def step_for_def)
next
  case (Inr new_id)
  let ?w1 = "w\<lparr>trace := trace w @ [EditEvent cal api_id ev_id summ st en descr (Some new_id)]\<rparr>"
  have 1: "step_for api_id w ?w1" by (simp add: step_for_def)
  from assms Inr have "save_entry et (set_event_id (Some new_id) api_entry) False ?w1 = (r, w')"
    by (simp add: update_and_save_def)
  then have "step_for api_id ?w1 w'" using save_entry_step assms(2) by fastforce
  with 1 show ?thesis by (rule step_for_trans)
qed

lemma sync_api_entry_step:
  assumes "sync_api_entry e et cal upcoming db_dict api_id api_entry w = (r, w')"
    and "entry_id api_entry = api_id"
  shows "step_for api_id w w'"
  using assms
  by (auto simp: sync_api_entry_def split: sum.splits prod.splits bool.splits option.splits if_splits
      intro: create_and_save_step update_and_save_step)

lemma sync_db_entry_step:
  assumes "sync_db_entry e et cal api_dict db_id db_entry w = (r, w')"
    and "row_id db_entry = db_id"
  shows "step_for db_id w w'"
proof (cases "map_of api_dict db_id = None")
  case False
  with assms show ?thesis by (simp add: sync_db_entry_def)
next
  case True
  define w1 where "w1 = (case event_id (entry_of db_entry) of
                     None \<Rightarrow> w
                   | Some ev_id \<Rightarrow>
                       if ev_id \<noteq> [] then
                         w\<lparr>trace := trace w
                              @ [DeleteEvent cal db_id ev_id
                                   (delete_event e (length (trace w)) cal ev_id)]\<rparr>
                       else w)"
  have 1: "step_for db_id w w1"
    by (auto simp: w1_def step_for_def split: option.splits)
  from assms True have "save_entry et (entry_of db_entry) True w1 = (r, w')"
    by (simp add: sync_db_entry_def w1_def)
  then have "step_for db_id w1 w'" using save_entry_step assms(2) by (fastforce simp: row_id_def)
  with 1 show ?thesis by (rule step_for_trans)
qed

lemma api_loop_untouched:
  assumes "api_loop e et cal upcoming db_dict items w = (r, w')"
    and "\<forall>p \<in> set items. entry_id (snd p) = fst p"
    and "\<forall>p \<in> set items. fst p = i \<longrightarrow>
           (\<forall>w0 r0 w1. sync_api_entry e et cal upcoming db_dict (fst p) (snd p) w0 = (r0, w1) \<longrightarrow> untouched i w0 w1)"
  shows "untouched i w w'"
  using assms
proof (induction items arbitrary: w)
  case Nil
  then show ?case by simp
next
  case (Cons p items)
  obtain j x where p: "p = (j, x)" by (cases p)
  obtain r1 w1 where s: "sync_api_entry e et cal upcoming db_dict j x w = (r1, w1)"
    by (cases "sync_api_entry e et cal upcoming db_dict j x w")
  have u1: "untouched i w w1"
  proof (cases "j = i")
    case True
    with Cons.prems(3) p s show ?thesis by auto
  next
    case False
    from s Cons.prems(2) p have "step_for j w w1" by (intro sync_api_entry_step[OF s]) simp
    with False show ?thesis by (intro step_for_untouched) auto
  qed
  show ?case
  proof (cases r1)
    case (Some err)
    with Cons.prems(1) p s have "w' = w1" by simp
    with u1 show ?thesis by simp
  next
    case None
    with Cons.prems(1) p s have "api_loop e et cal upcoming db_dict items w1 = (r, w')" by simp
    then have "untouched i w1 w'" using Cons.prems(2,3) by (intro Cons.IH) auto
    with u1 show ?thesis by (rule untouched_trans)
  qed
qed

lemma db_loop_untouched:
  assumes "db_loop e et cal api_dict items w = (r, w')"
    and "\<forall>p \<in> set items. row_id (snd p) = fst p"
    and "\<forall>p \<in> set items. fst p = i \<longrightarrow>
           (\<forall>w0 r0 w1. sync_db_entry e et cal api_dict (fst p) (snd p) w0 = (r0, w1) \<longrightarrow> untouched i w0 w1)"
  shows "untouched i w w'"
  using assms
proof (induction items arbitrary: w)
  case Nil
  then show ?case by simp
next
  case (Cons p items)
  obtain j x where p: "p = (j, x)" by (cases p)
  obtain r1 w1 where s: "sync_db_entry e et cal api_dict j x w = (r1, w1)"
    by (cases "sync_db_entry e et cal api_dict j x w")
  have u1: "untouched i w w1"
  proof (cases "j = i")
    case True
    with Cons.prems(3) p s show ?thesis by auto
  next
    case False
    from s Cons.prems(2) p have "step_for j w w1" by (intro sync_db_entry_step[OF s]) simp
    with False show ?thesis by (intro step_for_untouched) auto
  qed
  show ?case
  proof (cases r1)
    case (Some err)
    with Cons.prems(1) p s have "w' = w1" by simp
    with u1 show ?thesis by simp
  next
    case None
    with Cons.prems(1) p s have "db_loop e et cal api_dict items w1 = (r, w')" by simp
    then have "untouched i w1 w'" using Cons.prems(2,3) by (intro Cons.IH) auto
    with u1 show ?thesis by (rule untouched_trans)
  qed
qed

lemma by_summary_map_of:
  "by_summary d items = Inr d' \<Longrightarrow>
   map_of d' s = (case find (\<lambda>ev. summary ev = Some s) (rev items) of None \<Rightarrow> map_of d s | Some ev \<Rightarrow> Some ev)"
proof (induction items arbitrary: d)
  case Nil then show ?case by simp
next
  case (Cons ev items)
  then obtain k where k: "summary ev = Some k" by (cases "summary ev") auto
  with Cons.prems have "by_summary (dict_set k ev d) items = Inr d'" by simp
  from Cons.IH[OF this] k show ?case
    by (auto simp: find_app map_of_dict_set split: option.splits)
qed

lemma by_summary_distinct:
  "by_summary d items = Inr d' \<Longrightarrow> distinct (map fst d) \<Longrightarrow> distinct (map fst d')"
proof (induction items arbitrary: d)
  case Nil then show ?case by simp
next
  case (Cons ev items)
  then obtain k where k: "summary ev = Some k" by (cases "summary ev") auto
  with Cons.prems have "by_summary (dict_set k ev d) items = Inr d'" by simp
  from Cons.IH[OF this] Cons.prems(2) show ?case by (simp add: distinct_dict_set)
qed

lemma by_summary_keyed:
  "by_summary d items = Inr d' \<Longrightarrow> \<forall>p \<in> set d. summary (snd p) = Some (fst p)
     \<Longrightarrow> \<forall>p \<in> set d'. summary (snd p) = Some (fst p)"
proof (induction items arbitrary: d)
  case Nil then show ?case by simp
next
  case (Cons ev items)
  then obtain k where k: "summary ev = Some k" by (cases "summary ev") auto
  with Cons.prems have 1: "by_summary (dict_set k ev d) items = Inr d'" by simp
  have "\<forall>p \<in> set (dict_set k ev d). summary (snd p) = Some (fst p)"
    using set_dict_set[of k ev d] Cons.prems(2) k by auto
  from Cons.IH[OF 1 this] show ?case .
qed

lemma by_summary_values:
  "by_summary d items = Inr d' \<Longrightarrow> snd ` set d' \<subseteq> snd ` set d \<union> set items"
proof (induction items arbitrary: d)
  case Nil then show ?case by simp
next
  case (Cons ev items)
  then obtain k where k: "summary ev = Some k" by (cases "summary ev") auto
  with Cons.prems have 1: "by_summary (dict_set k ev d) items = Inr d'" by simp
  have "snd ` set (dict_set k ev d) \<subseteq> insert ev (snd ` set d)"
    using set_dict_set[of k ev d] by auto
  with Cons.IH[OF 1] show ?case by auto
qed

lemma event_exists_True:
  "event_exists evs summ st = Inr True \<Longrightarrow>
     \<exists>ev \<in> set evs. summary ev = Some summ \<and> start_dateTime ev = Some st"
  by (induction evs) (auto split: option.splits if_splits)

lemma event_exists_match:
  "ev \<in> set evs \<Longrightarrow> summary ev = Some summ \<Longrightarrow> start_dateTime ev = Some st \<Longrightarrow>
     event_exists evs summ st \<noteq> Inr False"
  by (induction evs) (auto split: option.splits if_splits)

subsection \<open>One pass of a loop, and the loops\<close>

lemma index_by_id_keyed: "\<forall>p \<in> set (index_by_id xs). entry_id (snd p) = fst p"
  using keyed_index_entries[of "[]" entry_id xs] by (simp add: index_by_id_def)

lemma index_by_id_distinct: "distinct (map fst (index_by_id xs))"
  using distinct_index_entries[of "[]" entry_id xs] by (simp add: index_by_id_def)

lemma index_rows_by_id_keyed: "\<forall>p \<in> set (index_rows_by_id xs). row_id (snd p) = fst p"
  using keyed_index_entries[of "[]" row_id xs] by (simp add: index_rows_by_id_def)

lemma index_rows_by_id_distinct: "distinct (map fst (index_rows_by_id xs))"
  using distinct_index_entries[of "[]" row_id xs] by (simp add: index_rows_by_id_def)

lemma sync_api_entry_exists:
  assumes "sync_api_entry e et cal upcoming db_dict i x w = (r, w')"
    and "render e et x = Inr (summ, st, en, descr)"
    and "event_exists (map snd upcoming) summ st \<noteq> Inr False"
  shows "w' = w"
  using assms
  by (auto simp: sync_api_entry_def split: sum.splits prod.splits bool.splits)

lemma sync_db_entry_present:
  assumes "sync_db_entry e et cal api_dict i x w = (r, w')"
    and "map_of api_dict i \<noteq> None"
  shows "w' = w"
  using assms by (auto simp: sync_db_entry_def)

lemma compare_and_update_untouched:
  assumes run: "compare_and_update e db_entries api_entries et cal w = (r, w')"
    and api: "\<And>upcoming x w0 r0 w1. get_upcoming_events e cal = Inr upcoming \<Longrightarrow>
            map_of (index_by_id api_entries) i = Some x \<Longrightarrow>
            sync_api_entry e et cal upcoming (index_rows_by_id db_entries) i x w0 = (r0, w1) \<Longrightarrow> w1 = w0"
    and db: "\<And>x w0 r0 w1. map_of (index_rows_by_id db_entries) i = Some x \<Longrightarrow>
            sync_db_entry e et cal (index_by_id api_entries) i x w0 = (r0, w1) \<Longrightarrow> w1 = w0"
  shows "untouched i w w'"
proof (cases "get_upcoming_events e cal")
  case (Inl err)
  with run show ?thesis by (simp add: compare_and_update_def)
next
  case (Inr upcoming)
  let ?db = "index_rows_by_id db_entries" and ?api = "index_by_id api_entries"
  obtain r1 w1 where l1: "api_loop e et cal upcoming ?db ?api w = (r1, w1)"
    by (cases "api_loop e et cal upcoming ?db ?api w")
  have "\<forall>p \<in> set ?api. fst p = i \<longrightarrow>
           (\<forall>w0 r0 w1. sync_api_entry e et cal upcoming ?db (fst p) (snd p) w0 = (r0, w1) \<longrightarrow> untouched i w0 w1)"
  proof (intro ballI impI allI)
    fix p w0 r0 w1 assume p: "p \<in> set ?api" "fst p = i"
      and s: "sync_api_entry e et cal upcoming ?db (fst p) (snd p) w0 = (r0, w1)"
    from p index_by_id_distinct[of api_entries] have "map_of ?api i = Some (snd p)"
      by (cases p) auto
    from api[OF Inr this] s p(2) have "w1 = w0" by simp
    then show "untouched i w0 w1" by simp
  qed
  with l1 index_by_id_keyed have u1: "untouched i w w1" by (rule api_loop_untouched)
  show ?thesis
  proof (cases r1)
    case (Some err)
    with run Inr l1 have "w' = w1" by (simp add: compare_and_update_def)
    with u1 show ?thesis by simp
  next
    case None
    with run Inr l1 have l2: "db_loop e et cal ?api ?db w1 = (r, w')"
      by (simp add: compare_and_update_def)
    have "\<forall>p \<in> set ?db. fst p = i \<longrightarrow>
           (\<forall>w0 r0 w1. sync_db_entry e et cal ?api (fst p) (snd p) w0 = (r0, w1) \<longrightarrow> untouched i w0 w1)"
    proof (intro ballI impI allI)
      fix p w0 r0 w1 assume p: "p \<in> set ?db" "fst p = i"
        and s: "sync_db_entry e et cal ?api (fst p) (snd p) w0 = (r0, w1)"
      from p index_rows_by_id_distinct[of db_entries] have "map_of ?db i = Some (snd p)"
        by (cases p) auto
      from db[OF this] s p(2) have "w1 = w0" by simp
      then show "untouched i w0 w1" by simp
    qed
    with l2 index_rows_by_id_keyed have "untouched i w1 w'" by (rule db_loop_untouched)
    with u1 show ?thesis by (rule untouched_trans)
  qed
qed

lemma calls_for_append [simp]: "calls_for i (xs @ ys) = calls_for i xs @ calls_for i ys"
  by (simp add: calls_for_def)

lemma api_loop_reaches:
  assumes "api_loop e et cal up dbd items w = (None, w')"
    and "distinct (map fst items)"
    and "\<forall>p \<in> set items. entry_id (snd p) = fst p"
    and "(i, x) \<in> set items"
  shows "\<exists>w0 w1. sync_api_entry e et cal up dbd i x w0 = (None, w1) \<and> untouched i w w0 \<and> untouched i w1 w'"
  using assms
proof (induction items arbitrary: w)
  case Nil
  then show ?case by simp
next
  case (Cons p items)
  obtain j y where p: "p = (j, y)" by (cases p)
  obtain r1 w1 where s: "sync_api_entry e et cal up dbd j y w = (r1, w1)"
    by (cases "sync_api_entry e et cal up dbd j y w")
  from Cons.prems(1) p s have r1: "r1 = None" by (cases r1) auto
  with Cons.prems(1) p s have rest: "api_loop e et cal up dbd items w1 = (None, w')" by simp
  show ?case
  proof (cases "(i, x) = (j, y)")
    case True
    from Cons.prems(2) p True have "\<forall>q \<in> set items. fst q \<noteq> i" by auto
    then have "\<forall>q \<in> set items. fst q = i \<longrightarrow>
        (\<forall>w0 r0 w1. sync_api_entry e et cal up dbd (fst q) (snd q) w0 = (r0, w1) \<longrightarrow> untouched i w0 w1)"
      by blast
    with rest Cons.prems(3) have "untouched i w1 w'" by (intro api_loop_untouched[OF rest]) auto
    with s r1 True show ?thesis by (intro exI[of _ w] exI[of _ w1]) simp
  next
    case False
    with Cons.prems(4) p have mem: "(i, x) \<in> set items" by auto
    with Cons.prems(2) p have ne: "i \<noteq> j" by (auto simp: image_iff)
    from Cons.prems(3) p have "entry_id y = j" by simp
    with s have "step_for j w w1" by (intro sync_api_entry_step[OF s])
    with ne have u: "untouched i w w1" by (intro step_for_untouched) auto
    from Cons.IH[OF rest _ _ mem] Cons.prems(2,3)
    obtain w0 w2 where "sync_api_entry e et cal up dbd i x w0 = (None, w2)"
      "untouched i w1 w0" "untouched i w2 w'" by auto
    with u show ?thesis by (blast intro: untouched_trans)
  qed
qed

lemma sync_db_entry_None: "fst (sync_db_entry e et cal apid j y w) = None"
  by (simp add: sync_db_entry_def save_entry_delete Let_def)

lemma db_loop_None: "fst (db_loop e et cal apid items w) = None"
proof (induction items arbitrary: w)
  case Nil then show ?case by simp
next
  case (Cons p items)
  obtain j y where p: "p = (j, y)" by (cases p)
  obtain r1 w1 where s: "sync_db_entry e et cal apid j y w = (r1, w1)"
    by (cases "sync_db_entry e et cal apid j y w")
  with sync_db_entry_None[of e et cal apid j y w] have "r1 = None" by simp
  with p s Cons.IH[of w1] show ?case by simp
qed

lemma db_loop_reaches:
  assumes "db_loop e et cal apid items w = (r, w')"
    and "distinct (map fst items)"
    and "\<forall>p \<in> set items. row_id (snd p) = fst p"
    and "(i, x) \<in> set items"
  shows "\<exists>w0 w1. sync_db_entry e et cal apid i x w0 = (None, w1) \<and> untouched i w w0 \<and> untouched i w1 w'"
  using assms
proof (induction items arbitrary: w)
  case Nil
  then show ?case by simp
next
  case (Cons p items)
  obtain j y where p: "p = (j, y)" by (cases p)
  obtain r1 w1 where s: "sync_db_entry e et cal apid j y w = (r1, w1)"
    by (cases "sync_db_entry e et cal apid j y w")
  with sync_db_entry_None[of e et cal apid j y w] have r1: "r1 = None" by simp
  with Cons.prems(1) p s have rest: "db_loop e et cal apid items w1 = (r, w')" by simp
  show ?case
  proof (cases "(i, x) = (j, y)")
    case True
    from Cons.prems(2) p True have "\<forall>q \<in> set items. fst q \<noteq> i" by auto
    then have "\<forall>q \<in> set items. fst q = i \<longrightarrow>
        (\<forall>w0 r0 w1. sync_db_entry e et cal apid (fst q) (snd q) w0 = (r0, w1) \<longrightarrow> untouched i w0 w1)"
      by blast
    with rest Cons.prems(3) have "untouched i w1 w'" by (intro db_loop_untouched[OF rest]) auto
    with s r1 True show ?thesis by (intro exI[of _ w] exI[of _ w1]) simp
  next
    case False
    with Cons.prems(4) p have mem: "(i, x) \<in> set items" by auto
    with Cons.prems(2) p have ne: "i \<noteq> j" by (auto simp: image_iff)
    from Cons.prems(3) p have "row_id y = j" by simp
    with s have "step_for j w w1" by (intro sync_db_entry_step[OF s])
    with ne have u: "untouched i w w1" by (intro step_for_untouched) auto
    from Cons.IH[OF rest _ _ mem] Cons.prems(2,3)
    obtain w0 w2 where "sync_db_entry e et cal apid i x w0 = (None, w2)"
      "untouched i w1 w0" "untouched i w2 w'" by auto
    with u show ?thesis by (blast intro: untouched_trans)
  qed
qed

lemma sync_api_entry_new:
  assumes s: "sync_api_entry e et cal up dbd i x w0 = (None, w1)"
    and "map_of dbd i = None"
    and "render e et x = Inr (summ, st, en, descr)"
    and "event_exists (map snd up) summ st \<noteq> Inr True"
  shows "\<exists>new_id. trace w1 = trace w0 @ [AddEvent cal i summ st en descr (Some new_id),
                                        SaveToDb et (set_event_id (Some new_id) x) False] \<and>
                  db w1 = sql_insert_or_replace (set_event_id (Some new_id) x) (db w0)"
proof -
  from assms have c: "create_and_save e et cal i x summ st en descr w0 = (None, w1)"
    by (auto simp: sync_api_entry_def split: sum.splits bool.splits)
  then obtain new_id where a: "add_event e (length (trace w0)) cal summ st en descr = Inr new_id"
    by (cases "add_event e (length (trace w0)) cal summ st en descr") (auto simp: create_and_save_def)
  let ?w = "w0\<lparr>trace := trace w0 @ [AddEvent cal i summ st en descr (Some new_id)]\<rparr>"
  from c a have sv: "save_entry et (set_event_id (Some new_id) x) False ?w = (None, w1)"
    by (simp add: create_and_save_def)
  from save_entry_insert(1,2)[OF sv] show ?thesis by auto
qed

lemma sync_db_entry_gone:
  assumes s: "sync_db_entry e et cal apid i x w0 = (r, w1)"
    and "map_of apid i = None"
  shows "\<exists>ok. trace w1 = trace w0 @
            (case event_id (entry_of x) of None \<Rightarrow> [] | Some ev_id \<Rightarrow> if ev_id \<noteq> [] then [DeleteEvent cal i ev_id ok] else [])
            @ [SaveToDb et (entry_of x) True] \<and>
          db w1 = sql_delete (row_id x) (db w0)"
  using assms
  by (auto simp: sync_db_entry_def save_entry_delete row_id_def split: option.splits)

lemma create_and_save_shape:
  assumes "create_and_save e et cal j x summ st en descr w = (r, w')"
  shows "(r = Some HttpError \<and> w' = w\<lparr>trace := trace w @ [AddEvent cal j summ st en descr None]\<rparr>) \<or>
         (\<exists>new_id. add_event e (length (trace w)) cal summ st en descr = Inr new_id \<and>
            trace w' = trace w @ [AddEvent cal j summ st en descr (Some new_id),
                                  SaveToDb et (set_event_id (Some new_id) x) False] \<and>
            (if r = None then db w' = sql_insert_or_replace (set_event_id (Some new_id) x) (db w)
             else db w' = db w))"
proof (cases "add_event e (length (trace w)) cal summ st en descr")
  case (Inl err)
  then have "err = HttpError" by (auto simp: add_event_def Let_def split: option.splits)
  with assms Inl show ?thesis by (auto simp: create_and_save_def)
next
  case (Inr new_id)
  let ?w = "w\<lparr>trace := trace w @ [AddEvent cal j summ st en descr (Some new_id)]\<rparr>"
  from assms Inr have sv: "save_entry et (set_event_id (Some new_id) x) False ?w = (r, w')"
    by (simp add: create_and_save_def)
  from save_entry_insert[OF sv] Inr show ?thesis by (cases r) auto
qed

lemma update_and_save_shape:
  assumes "update_and_save e et cal j ev_id x summ st en descr w = (r, w')"
  shows "(r \<noteq> None \<and> w' = w\<lparr>trace := trace w @ [EditEvent cal j ev_id summ st en descr None]\<rparr>) \<or>
         (\<exists>new_id. edit_event e (length (trace w)) cal ev_id summ st en descr = Inr new_id \<and>
            trace w' = trace w @ [EditEvent cal j ev_id summ st en descr (Some new_id),
                                  SaveToDb et (set_event_id (Some new_id) x) False] \<and>
            (if r = None then db w' = sql_insert_or_replace (set_event_id (Some new_id) x) (db w)
             else db w' = db w))"
proof (cases "edit_event e (length (trace w)) cal ev_id summ st en descr")
  case (Inl err)
  with assms show ?thesis by (auto simp: update_and_save_def)
next
  case (Inr new_id)
  let ?w = "w\<lparr>trace := trace w @ [EditEvent cal j ev_id summ st en descr (Some new_id)]\<rparr>"
  from assms Inr have sv: "save_entry et (set_event_id (Some new_id) x) False ?w = (r, w')"
    by (simp add: update_and_save_def)
  from save_entry_insert[OF sv] Inr show ?thesis by (cases r) auto
qed

lemma sync_api_entry_shape:
  assumes "sync_api_entry e et cal up dbd j x w = (r, w')"
  shows "w' = w \<or>
         (\<exists>c. trace w' = trace w @ [c] \<and> db w' = db w \<and> call_id c = j \<and> \<not> deletes c \<and>
               r \<noteq> None \<and> (failed_create c \<longrightarrow> r = Some HttpError)) \<or>
         (\<exists>c y. trace w' = trace w @ [c, SaveToDb et y False] \<and> call_id c = j \<and> \<not> deletes c \<and>
               \<not> failed_create c \<and> entry_id y = entry_id x \<and>
               (db w' = db w \<or> db w' = sql_insert_or_replace y (db w)))"
proof -
  have cs: ?thesis if "create_and_save e et cal j x summ st en descr w = (r, w')" for summ st en descr
    using create_and_save_shape[OF that]
  proof (elim disjE exE conjE)
    assume "r = Some HttpError" "w' = w\<lparr>trace := trace w @ [AddEvent cal j summ st en descr None]\<rparr>"
    then show ?thesis by (intro disjI2 disjI1 exI[of _ "AddEvent cal j summ st en descr None"]) simp
  next
    fix new_id
    assume "trace w' = trace w @ [AddEvent cal j summ st en descr (Some new_id),
                                  SaveToDb et (set_event_id (Some new_id) x) False]"
      "if r = None then db w' = sql_insert_or_replace (set_event_id (Some new_id) x) (db w)
             else db w' = db w"
    then show ?thesis
      by (intro disjI2 exI[of _ "AddEvent cal j summ st en descr (Some new_id)"]
           exI[of _ "set_event_id (Some new_id) x"]) (auto split: if_splits)
  qed
  have us: ?thesis if "update_and_save e et cal j ev_id x summ st en descr w = (r, w')" for ev_id summ st en descr
    using update_and_save_shape[OF that]
  proof (elim disjE exE conjE)
    assume "r \<noteq> None" "w' = w\<lparr>trace := trace w @ [EditEvent cal j ev_id summ st en descr None]\<rparr>"
    then show ?thesis by (intro disjI2 disjI1 exI[of _ "EditEvent cal j ev_id summ st en descr None"]) simp
  next
    fix new_id
    assume "trace w' = trace w @ [EditEvent cal j ev_id summ st en descr (Some new_id),
                                  SaveToDb et (set_event_id (Some new_id) x) False]"
      "if r = None then db w' = sql_insert_or_replace (set_event_id (Some new_id) x) (db w)
             else db w' = db w"
    then show ?thesis
      by (intro disjI2 exI[of _ "EditEvent cal j ev_id summ st en descr (Some new_id)"]
           exI[of _ "set_event_id (Some new_id) x"]) (auto split: if_splits)
  qed
  from assms show ?thesis
    by (auto simp: sync_api_entry_def split: sum.splits prod.splits bool.splits option.splits if_splits
        dest: cs us)
qed

lemma api_loop_failed_create:
  assumes "api_loop e et cal up dbd items w = (r, w')"
    and "distinct (map fst items)"
    and "\<forall>p \<in> set items. entry_id (snd p) = fst p"
    and "c \<in> set (trace w')" and "c \<notin> set (trace w)" and "failed_create c"
  shows "r = Some HttpError \<and> (\<exists>pre. trace w' = pre @ [c]) \<and> call_id c \<in> fst ` set items \<and>
         calls_for (call_id c) (trace w') = calls_for (call_id c) (trace w) @ [c] \<and>
         row_of (db w') (call_id c) = row_of (db w) (call_id c)"
  using assms
proof (induction items arbitrary: w)
  case Nil
  then show ?case by simp
next
  case (Cons p items)
  obtain j y where p: "p = (j, y)" by (cases p)
  obtain r1 w1 where s: "sync_api_entry e et cal up dbd j y w = (r1, w1)"
    by (cases "sync_api_entry e et cal up dbd j y w")
  from Cons.prems(3) p have idj: "entry_id y = j" by simp
  show ?case
  proof (cases "c \<in> set (trace w1)")
    case True
    from sync_api_entry_shape[OF s] True Cons.prems(5,6)
    have f: "trace w1 = trace w @ [c]" "db w1 = db w" "call_id c = j" "r1 = Some HttpError"
      by auto
    with Cons.prems(1) p s have "w' = w1" "r = Some HttpError" by auto
    with f p show ?thesis by (auto simp: calls_for_def)
  next
    case False
    with Cons.prems(4) have "w' \<noteq> w1" by auto
    with Cons.prems(1) p s have r1: "r1 = None" by (cases r1) auto
    with Cons.prems(1) p s have rest: "api_loop e et cal up dbd items w1 = (r, w')" by simp
    from Cons.IH[OF rest _ _ Cons.prems(4) False Cons.prems(6)] Cons.prems(2,3)
    have ih: "r = Some HttpError" "\<exists>pre. trace w' = pre @ [c]" "call_id c \<in> fst ` set items"
      "calls_for (call_id c) (trace w') = calls_for (call_id c) (trace w1) @ [c]"
      "row_of (db w') (call_id c) = row_of (db w1) (call_id c)" by auto
    from ih(3) Cons.prems(2) p have ne: "call_id c \<noteq> j" by (auto simp: image_iff)
    from s idj have "step_for j w w1" by (rule sync_api_entry_step)
    with ne have "untouched (call_id c) w w1" by (intro step_for_untouched) auto
    with ih show ?thesis by (auto simp: untouched_def)
  qed
qed

lemma sync_db_entry_shape:
  assumes "sync_db_entry e et cal apid j y w = (r, w')"
  shows "\<exists>new. trace w' = trace w @ new \<and> (\<forall>c \<in> set new. \<not> creates c \<and> \<not> failed_create c)"
  using assms
  by (auto simp: sync_db_entry_def save_entry_delete split: option.splits if_splits)

lemma db_loop_no_create:
  assumes "db_loop e et cal apid items w = (r, w')"
  shows "\<exists>new. trace w' = trace w @ new \<and> (\<forall>c \<in> set new. \<not> creates c \<and> \<not> failed_create c)"
  using assms
proof (induction items arbitrary: w)
  case Nil
  then show ?case by simp
next
  case (Cons p items)
  obtain j y where p: "p = (j, y)" by (cases p)
  obtain r1 w1 where s: "sync_db_entry e et cal apid j y w = (r1, w1)"
    by (cases "sync_db_entry e et cal apid j y w")
  with sync_db_entry_None[of e et cal apid j y w] have r1: "r1 = None" by simp
  with Cons.prems(1) p s have rest: "db_loop e et cal apid items w1 = (r, w')" by simp
  from sync_db_entry_shape[OF s] obtain n1 where
    n1: "trace w1 = trace w @ n1" "\<forall>c \<in> set n1. \<not> creates c \<and> \<not> failed_create c" by blast
  from Cons.IH[OF rest] obtain n2 where
    n2: "trace w' = trace w1 @ n2" "\<forall>c \<in> set n2. \<not> creates c \<and> \<not> failed_create c" by blast
  from n1 n2 show ?case by (intro exI[of _ "n1 @ n2"]) auto
qed

lemma keys_dict_set_insert: "fst ` set (dict_set k v d) = insert k (fst ` set d)"
  by (induction k v d rule: dict_set.induct) auto

lemma keys_index_entries:
  "fst ` set (index_entries key d xs) = fst ` set d \<union> key ` set xs"
proof (induction xs arbitrary: d)
  case Nil then show ?case by simp
next
  case (Cons x xs)
  have "fst ` set (dict_set (key x) x d) = insert (key x) (fst ` set d)"
    by (rule keys_dict_set_insert)
  with Cons.IH[of "dict_set (key x) x d"] show ?case by auto
qed

lemma keys_index_rows_by_id: "fst ` set (index_rows_by_id xs) = row_id ` set xs"
  by (simp add: index_rows_by_id_def keys_index_entries)

lemma api_loop_invariant:
  assumes "api_loop e et cal up dbd items w = (r, w')" and "I w"
    and "\<And>p w0 r0 w1. p \<in> set items \<Longrightarrow> I w0 \<Longrightarrow>
           sync_api_entry e et cal up dbd (fst p) (snd p) w0 = (r0, w1) \<Longrightarrow> I w1"
  shows "I w'"
  using assms
proof (induction items arbitrary: w)
  case Nil
  then show ?case by simp
next
  case (Cons p items)
  obtain j y where p: "p = (j, y)" by (cases p)
  obtain r1 w1 where s: "sync_api_entry e et cal up dbd j y w = (r1, w1)"
    by (cases "sync_api_entry e et cal up dbd j y w")
  from Cons.prems(3)[of p w r1 w1] Cons.prems(2) p s have i1: "I w1" by simp
  show ?case
  proof (cases r1)
    case (Some err)
    with Cons.prems(1) p s i1 show ?thesis by simp
  next
    case None
    with Cons.prems(1) p s have rest: "api_loop e et cal up dbd items w1 = (r, w')" by simp
    show ?thesis
    proof (rule Cons.IH[OF rest i1])
      fix q w0 r0 w2
      assume "q \<in> set items" "I w0" "sync_api_entry e et cal up dbd (fst q) (snd q) w0 = (r0, w2)"
      then show "I w2" using Cons.prems(3)[of q w0 r0 w2] by simp
    qed
  qed
qed

lemma find_rev_distinct:
  "distinct (map f xs) \<Longrightarrow> find (\<lambda>x. f x = i) (rev xs) = find (\<lambda>x. f x = i) xs"
proof (induction xs)
  case Nil then show ?case by simp
next
  case (Cons x xs)
  show ?case
  proof (cases "f x = i")
    case True
    with Cons.prems have "\<forall>y \<in> set xs. f y \<noteq> i" by (auto simp: image_iff)
    then have "find (\<lambda>x. f x = i) xs = None" by (simp add: find_None_iff)
    with Cons True show ?thesis by (simp add: find_app)
  next
    case False
    with Cons show ?thesis by (simp add: find_app split: option.splits)
  qed
qed

lemma index_rows_by_id_row_of:
  "distinct (map row_id tbl) \<Longrightarrow> map_of (index_rows_by_id tbl) i = row_of tbl i"
  by (simp add: index_rows_by_id_def map_of_index_entries row_of_def find_rev_distinct
      split: option.splits)

lemma distinct_sql_delete:
  "distinct (map row_id tbl) \<Longrightarrow> distinct (map row_id (sql_delete i tbl))"
  by (simp add: sql_delete_def distinct_map_filter)

lemma distinct_sql_insert_or_replace:
  "distinct (map row_id tbl) \<Longrightarrow> distinct (map row_id (sql_insert_or_replace y tbl))"
  by (auto simp: sql_insert_or_replace_def sql_delete_def distinct_map_filter)

lemma db_loop_invariant:
  assumes "db_loop e et cal apid items w = (r, w')" and "I w"
    and "\<And>p w0 r0 w1. p \<in> set items \<Longrightarrow> I w0 \<Longrightarrow>
           sync_db_entry e et cal apid (fst p) (snd p) w0 = (r0, w1) \<Longrightarrow> I w1"
  shows "I w'"
  using assms
proof (induction items arbitrary: w)
  case Nil
  then show ?case by simp
next
  case (Cons p items)
  obtain j y where p: "p = (j, y)" by (cases p)
  obtain r1 w1 where s: "sync_db_entry e et cal apid j y w = (r1, w1)"
    by (cases "sync_db_entry e et cal apid j y w")
  from Cons.prems(3)[of p w r1 w1] Cons.prems(2) p s have i1: "I w1" by simp
  from sync_db_entry_None[of e et cal apid j y w] s have "r1 = None" by simp
  with Cons.prems(1) p s have rest: "db_loop e et cal apid items w1 = (r, w')" by simp
  show ?case
  proof (rule Cons.IH[OF rest i1])
    fix q w0 r0 w2
    assume "q \<in> set items" "I w0" "sync_db_entry e et cal apid (fst q) (snd q) w0 = (r0, w2)"
    then show "I w2" using Cons.prems(3)[of q w0 r0 w2] by simp
  qed
qed

lemma sync_db_entry_db:
  assumes "sync_db_entry e et cal apid j y w = (r, w')"
  shows "db w' = db w \<or> db w' = sql_delete (row_id y) (db w)"
  using assms
  by (auto simp: sync_db_entry_def save_entry_delete row_id_def split: option.splits if_splits)

lemma compare_and_update_distinct:
  assumes run: "compare_and_update e db_entries api_entries et cal w = (r, w')"
    and pk: "distinct (map row_id (db w))"
  shows "distinct (map row_id (db w'))"
proof (cases "get_upcoming_events e cal")
  case (Inl err)
  with run pk show ?thesis by (simp add: compare_and_update_def)
next
  case (Inr up)
  let ?db = "index_rows_by_id db_entries" and ?api = "index_by_id api_entries"
  obtain r1 w1 where l1: "api_loop e et cal up ?db ?api w = (r1, w1)"
    by (cases "api_loop e et cal up ?db ?api w")
  have d1: "distinct (map row_id (db w1))"
  proof (rule api_loop_invariant[OF l1, where I = "\<lambda>w. distinct (map row_id (db w))"])
    show "distinct (map row_id (db w))" by (rule pk)
  next
    fix p w0 r0 w2
    assume "distinct (map row_id (db w0))"
      and "sync_api_entry e et cal up ?db (fst p) (snd p) w0 = (r0, w2)"
    then show "distinct (map row_id (db w2))"
      using sync_api_entry_shape[of e et cal up ?db "fst p" "snd p" w0 r0 w2]
      by (auto simp: distinct_sql_insert_or_replace)
  qed
  show ?thesis
  proof (cases r1)
    case (Some err)
    with run Inr l1 have "w' = w1" by (simp add: compare_and_update_def)
    with d1 show ?thesis by simp
  next
    case None
    with run Inr l1 have l2: "db_loop e et cal ?api ?db w1 = (r, w')"
      by (simp add: compare_and_update_def)
    show ?thesis
    proof (rule db_loop_invariant[OF l2, where I = "\<lambda>w. distinct (map row_id (db w))"])
      show "distinct (map row_id (db w1))" by (rule d1)
    next
      fix p w0 r0 w2
      assume "distinct (map row_id (db w0))"
        and "sync_db_entry e et cal ?api (fst p) (snd p) w0 = (r0, w2)"
      then show "distinct (map row_id (db w2))"
        using sync_db_entry_db[of e et cal ?api "fst p" "snd p" w0 r0 w2]
        by (auto simp: distinct_sql_delete)
    qed
  qed
qed

lemma add_event_id:
  "add_event e t cal summ st en descr = Inr new_id \<Longrightarrow>
     \<exists>body. events_insert e t cal body = Some new_id"
  by (auto simp: add_event_def Let_def split: option.splits)

lemma edit_event_id:
  "edit_event e t cal ev_id summ st en descr = Inr new_id \<Longrightarrow>
     \<exists>body. events_update e t cal ev_id body = Some new_id"
  by (auto simp: edit_event_def Let_def split: option.splits)

lemma create_and_save_settles:
  assumes "create_and_save e et cal i x summ st en descr w = (None, w')"
    and "entry_id x = i"
    and "\<forall>t c b. events_insert e t c b \<noteq> Some []"
  shows "\<exists>y. row_of (db w') i = Some y \<and> truthy (event_id (entry_of y))"
  using create_and_save_shape[OF assms(1)] assms(2,3)
  by (auto simp: row_of_insert_or_replace dest!: add_event_id)

lemma update_and_save_settles:
  assumes "update_and_save e et cal i ev_id x summ st en descr w = (None, w')"
    and "entry_id x = i"
    and "\<forall>t c j b. events_update e t c j b \<noteq> Some []"
  shows "\<exists>y. row_of (db w') i = Some y \<and> truthy (event_id (entry_of y))"
  using update_and_save_shape[OF assms(1)] assms(2,3)
  by (auto simp: row_of_insert_or_replace dest!: edit_event_id)

lemma sync_api_entry_settles:
  assumes s: "sync_api_entry e et cal up dbd i x w = (None, w')"
    and idx: "entry_id x = i"
    and row: "map_of dbd i = row_of (db w) i"
    and ins: "\<forall>t c b. events_insert e t c b \<noteq> Some []"
    and upd: "\<forall>t c j b. events_update e t c j b \<noteq> Some []"
  shows "settled e et up x (row_of (db w') i)"
proof -
  from s obtain summ st en descr where ren: "render e et x = Inr (summ, st, en, descr)"
    by (cases "render e et x") (auto simp: sync_api_entry_def)
  from s ren obtain b where ex: "event_exists (map snd up) summ st = Inr b"
    by (cases "event_exists (map snd up) summ st") (auto simp: sync_api_entry_def)
  show ?thesis
  proof (cases b)
    case True
    with ren ex show ?thesis by (simp add: settled_def)
  next
    case False
    have "\<exists>y. row_of (db w') i = Some y \<and> (dict_eq y x \<or> truthy (event_id (entry_of y)))"
    proof (cases "map_of dbd i")
      case None
      with s ren ex False have "create_and_save e et cal i x summ st en descr w = (None, w')"
        by (simp add: sync_api_entry_def)
      from create_and_save_settles[OF this idx ins] show ?thesis by blast
    next
      case (Some y)
      show ?thesis
      proof (cases "dict_eq y x")
        case True
        with s ren ex False Some have "w' = w" by (simp add: sync_api_entry_def)
        moreover from row Some have "row_of (db w) i = Some y" by simp
        ultimately show ?thesis using True by simp
      next
        case ne: False
        show ?thesis
        proof (cases "event_id (entry_of y)")
          case None
          with s ren ex False Some ne
          have "create_and_save e et cal i x summ st en descr w = (None, w')"
            by (simp add: sync_api_entry_def)
          from create_and_save_settles[OF this idx ins] show ?thesis by blast
        next
          case (Some ev_id)
          show ?thesis
          proof (cases "ev_id = []")
            case True
            with s ren ex False \<open>map_of dbd i = Some y\<close> ne Some
            have "create_and_save e et cal i x summ st en descr w = (None, w')"
              by (simp add: sync_api_entry_def)
            from create_and_save_settles[OF this idx ins] show ?thesis by blast
          next
            case False
            with s ren ex \<open>\<not> b\<close> \<open>map_of dbd i = Some y\<close> ne Some
            have "update_and_save e et cal i ev_id x summ st en descr w = (None, w')"
              by (simp add: sync_api_entry_def)
            from update_and_save_settles[OF this idx upd] show ?thesis by blast
          qed
        qed
      qed
    qed
    with ren ex False show ?thesis by (auto simp: settled_def)
  qed
qed

lemma api_loop_settles:
  assumes "api_loop e et cal up dbd items w = (None, w')"
    and "distinct (map fst items)"
    and "\<forall>p \<in> set items. entry_id (snd p) = fst p"
    and "\<forall>p \<in> set items. map_of dbd (fst p) = row_of (db w) (fst p)"
    and ins: "\<forall>t c b. events_insert e t c b \<noteq> Some []"
    and upd: "\<forall>t c j b. events_update e t c j b \<noteq> Some []"
  shows "\<forall>p \<in> set items. settled e et up (snd p) (row_of (db w') (fst p))"
proof (intro ballI)
  fix p assume p: "p \<in> set items"
  obtain i x where ix: "p = (i, x)" by (cases p)
  with p have mem: "(i, x) \<in> set items" by simp
  from api_loop_reaches[OF assms(1,2,3) mem]
  obtain w0 w1 where s: "sync_api_entry e et cal up dbd i x w0 = (None, w1)"
    and u0: "untouched i w w0" and u1: "untouched i w1 w'" by blast
  from assms(3) mem have idx: "entry_id x = i" by fastforce
  from assms(4) mem u0 have "map_of dbd i = row_of (db w0) i" by (fastforce simp: untouched_def)
  from sync_api_entry_settles[OF s idx this ins upd] u1 ix
  show "settled e et up (snd p) (row_of (db w') (fst p))" by (simp add: untouched_def)
qed

lemma compare_and_update_gone:
  assumes run: "compare_and_update e db_entries api_entries et calendar_id w = (None, w')"
    and db: "map_of (index_rows_by_id db_entries) i = Some x"
    and api: "map_of (index_by_id api_entries) i = None"
  shows "\<exists>ok.
           calls_for i (trace w') = calls_for i (trace w) @
             (case event_id (entry_of x) of None \<Rightarrow> []
              | Some ev_id \<Rightarrow> if ev_id \<noteq> [] then [DeleteEvent calendar_id i ev_id ok] else [])
             @ [SaveToDb et (entry_of x) True] \<and>
           row_of (db w') i = None"
proof -
  let ?db = "index_rows_by_id db_entries" and ?api = "index_by_id api_entries"
  from run obtain up where up: "get_upcoming_events e calendar_id = Inr up"
    by (cases "get_upcoming_events e calendar_id") (auto simp: compare_and_update_def)
  obtain r1 w1 where l1: "api_loop e et calendar_id up ?db ?api w = (r1, w1)"
    by (cases "api_loop e et calendar_id up ?db ?api w")
  with run up have r1: "r1 = None" by (cases r1) (auto simp: compare_and_update_def)
  with run up l1 have l2: "db_loop e et calendar_id ?api ?db w1 = (None, w')"
    by (simp add: compare_and_update_def)
  from db have mem: "(i, x) \<in> set ?db" by (rule map_of_SomeD)
  with index_rows_by_id_keyed have idx: "row_id x = i" by fastforce
  have "\<forall>p \<in> set ?api. fst p \<noteq> i" using api by (auto simp: map_of_eq_None_iff image_iff)
  then have "\<forall>p \<in> set ?api. fst p = i \<longrightarrow>
           (\<forall>w0 r0 w1. sync_api_entry e et calendar_id up ?db (fst p) (snd p) w0 = (r0, w1) \<longrightarrow> untouched i w0 w1)"
    by blast
  with l1 index_by_id_keyed have u1: "untouched i w w1" by (rule api_loop_untouched)
  from db_loop_reaches[OF l2 index_rows_by_id_distinct index_rows_by_id_keyed mem]
  obtain w0 w2 where s: "sync_db_entry e et calendar_id ?api i x w0 = (None, w2)"
    and u0: "untouched i w1 w0" and u2: "untouched i w2 w'" by blast
  from sync_db_entry_gone[OF s api] obtain ok where
    t: "trace w2 = trace w0 @
            (case event_id (entry_of x) of None \<Rightarrow> [] | Some ev_id \<Rightarrow> if ev_id \<noteq> [] then [DeleteEvent calendar_id i ev_id ok] else [])
            @ [SaveToDb et (entry_of x) True]"
    and d: "db w2 = sql_delete (row_id x) (db w0)" by blast
  from u1 u0 have u: "untouched i w w0" by (rule untouched_trans)
  have "calls_for i (trace w') = calls_for i (trace w) @
             (case event_id (entry_of x) of None \<Rightarrow> []
              | Some ev_id \<Rightarrow> if ev_id \<noteq> [] then [DeleteEvent calendar_id i ev_id ok] else [])
             @ [SaveToDb et (entry_of x) True]"
    using u u2 t idx
    by (simp add: untouched_def) (auto simp: calls_for_def row_id_def split: option.splits)
  moreover have "row_of (db w') i = None"
    using u2 d idx by (simp add: untouched_def row_of_sql_delete)
  ultimately show ?thesis by blast
qed

lemma compare_and_update_rows_fetched:
  assumes run: "compare_and_update e (db w) api_entries et calendar_id w = (None, w')"
    and nf: "i \<notin> fst ` set (index_by_id api_entries)"
  shows "row_of (db w') i = None"
proof -
  from nf have api: "map_of (index_by_id api_entries) i = None"
    by (simp add: map_of_eq_None_iff)
  show ?thesis
  proof (cases "map_of (index_rows_by_id (db w)) i")
    case (Some x)
    from compare_and_update_gone[OF run Some api] show ?thesis by blast
  next
    case None
    then have "i \<notin> row_id ` set (db w)"
      by (simp add: map_of_eq_None_iff keys_index_rows_by_id)
    then have r0: "row_of (db w) i = None" by (auto simp: row_of_def find_None_iff)
    have "untouched i w w'"
    proof (rule compare_and_update_untouched[OF run])
      fix upcoming y r0 and w0 w1 :: world
      assume "map_of (index_by_id api_entries) i = Some y"
      with api show "w1 = w0" by simp
    next
      fix y r0 and w0 w1 :: world
      assume "map_of (index_rows_by_id (db w)) i = Some y"
      with None show "w1 = w0" by simp
    qed
    with r0 show ?thesis by (simp add: untouched_def)
  qed
qed

lemma sync_api_entry_settled:
  assumes s: "sync_api_entry e et cal up dbd i x w = (r, w')"
    and st: "settled e et up x (map_of dbd i)"
  shows "\<exists>new. trace w' = trace w @ new \<and> (\<forall>c \<in> set new. \<not> creates c \<and> \<not> deletes c)"
proof -
  from st obtain summ st en descr where ren: "render e et x = Inr (summ, st, en, descr)"
    by (cases "render e et x") (auto simp: settled_def)
  from st ren obtain b where ex: "event_exists (map snd up) summ st = Inr b"
    by (cases "event_exists (map snd up) summ st") (auto simp: settled_def)
  show ?thesis
  proof (cases b)
    case True
    with s ren ex have "w' = w" by (simp add: sync_api_entry_def)
    then show ?thesis by simp
  next
    case False
    with st ren ex obtain y where y: "map_of dbd i = Some y" "dict_eq y x \<or> truthy (event_id (entry_of y))"
      by (auto simp: settled_def split: option.splits)
    show ?thesis
    proof (cases "dict_eq y x")
      case True
      with s ren ex False y have "w' = w" by (simp add: sync_api_entry_def)
      then show ?thesis by simp
    next
      case ne: False
      with y obtain ev_id where ev: "event_id (entry_of y) = Some ev_id" "ev_id \<noteq> []"
        by (cases "event_id (entry_of y)") auto
      with s ren ex False y ne
      have "update_and_save e et cal i ev_id x summ st en descr w = (r, w')"
        by (simp add: sync_api_entry_def)
      from update_and_save_shape[OF this] show ?thesis by auto
    qed
  qed
qed

lemma sync_api_entry_cached:
  assumes s: "sync_api_entry e et cal up dbd i x w0 = (None, w1)"
    and db: "map_of dbd i = Some y"
    and ne: "\<not> dict_eq y x"
    and ren: "render e et x = Inr (summ, st, en, descr)"
    and nex: "event_exists (map snd up) summ st \<noteq> Inr True"
  shows "\<exists>new_id. trace w1 = trace w0 @
            [if truthy (event_id (entry_of y))
             then EditEvent cal i (the (event_id (entry_of y))) summ st en descr (Some new_id)
             else AddEvent cal i summ st en descr (Some new_id),
             SaveToDb et (set_event_id (Some new_id) x) False] \<and>
          db w1 = sql_insert_or_replace (set_event_id (Some new_id) x) (db w0)"
proof (cases "truthy (event_id (entry_of y))")
  case True
  then obtain ev_id where ev: "event_id (entry_of y) = Some ev_id" "ev_id \<noteq> []"
    by (cases "event_id (entry_of y)") auto
  with s db ren nex have "update_and_save e et cal i ev_id x summ st en descr w0 = (None, w1)"
    by (auto simp: sync_api_entry_def split: sum.splits bool.splits)
  from update_and_save_shape[OF this] True ev show ?thesis by auto
next
  case False
  with s db ren nex have "create_and_save e et cal i x summ st en descr w0 = (None, w1)"
    by (cases "event_id (entry_of y)")
       (auto simp: sync_api_entry_def split: sum.splits bool.splits if_splits)
  from create_and_save_shape[OF this] False show ?thesis by auto
qed

lemma no_listed_match:
  assumes up: "get_upcoming_events e calendar_id = Inr up"
    and win: "\<forall>items. events_list e calendar_id = Some items \<longrightarrow>
                (\<forall>ev \<in> set items. \<not> (summary ev = Some summ \<and> start_dateTime ev = Some st))"
  shows "event_exists (map snd up) summ st \<noteq> Inr True"
proof
  assume "event_exists (map snd up) summ st = Inr True"
  from event_exists_True[OF this] obtain ev where ev: "ev \<in> snd ` set up"
    "summary ev = Some summ" "start_dateTime ev = Some st" by auto
  show False
  proof (cases "events_list e calendar_id")
    case None
    with up ev(1) show False by (simp add: get_upcoming_events_def)
  next
    case (Some items)
    with up have "by_summary [] items = Inr up" by (simp add: get_upcoming_events_def)
    from by_summary_values[OF this] ev(1) have "ev \<in> set items" by auto
    with win Some ev(2,3) show False by blast
  qed
qed

lemma compare_and_update_fetched:
  assumes run: "compare_and_update e db_entries api_entries et calendar_id w = (None, w')"
    and api: "map_of (index_by_id api_entries) i = Some x"
  shows "\<exists>up w0 w2. get_upcoming_events e calendar_id = Inr up \<and>
           sync_api_entry e et calendar_id up (index_rows_by_id db_entries) i x w0 = (None, w2) \<and>
           untouched i w w0 \<and> untouched i w2 w' \<and> entry_id x = i"
proof -
  let ?db = "index_rows_by_id db_entries" and ?api = "index_by_id api_entries"
  from run obtain up where up: "get_upcoming_events e calendar_id = Inr up"
    by (cases "get_upcoming_events e calendar_id") (auto simp: compare_and_update_def)
  obtain r1 w1 where l1: "api_loop e et calendar_id up ?db ?api w = (r1, w1)"
    by (cases "api_loop e et calendar_id up ?db ?api w")
  with run up have r1: "r1 = None" by (cases r1) (auto simp: compare_and_update_def)
  with run up l1 have l2: "db_loop e et calendar_id ?api ?db w1 = (None, w')"
    by (simp add: compare_and_update_def)
  from api have mem: "(i, x) \<in> set ?api" by (rule map_of_SomeD)
  with index_by_id_keyed have idx: "entry_id x = i" by fastforce
  from api_loop_reaches[OF l1[unfolded r1] index_by_id_distinct index_by_id_keyed mem]
  obtain w0 w2 where s: "sync_api_entry e et calendar_id up ?db i x w0 = (None, w2)"
    and u0: "untouched i w w0" and u2: "untouched i w2 w1" by blast
  have "\<forall>p \<in> set ?db. fst p = i \<longrightarrow>
           (\<forall>w0 r0 w1. sync_db_entry e et calendar_id ?api (fst p) (snd p) w0 = (r0, w1) \<longrightarrow> untouched i w0 w1)"
    using api by (auto dest: sync_db_entry_present)
  with l2 index_rows_by_id_keyed have u3: "untouched i w1 w'" by (rule db_loop_untouched)
  from u2 u3 have "untouched i w2 w'" by (rule untouched_trans)
  with up s u0 idx show ?thesis by blast
qed

lemma calls_and_row_after:
  assumes u0: "untouched i w w0" and u2: "untouched i w2 w'"
    and t: "trace w2 = trace w0 @ [c, SaveToDb et z False]"
    and d: "db w2 = sql_insert_or_replace z (db w0)"
    and c: "call_id c = i" and z: "entry_id z = i"
  shows "calls_for i (trace w') = calls_for i (trace w) @ [c, SaveToDb et z False] \<and>
         row_of (db w') i = Some (Row z)"
  using assms by (simp add: untouched_def row_of_insert_or_replace) (simp add: calls_for_def)

subsection \<open>Evaluation\<close>

lemmas run_simps =
  compare_and_update_def get_upcoming_events_def index_by_id_def index_rows_by_id_def
  row_id_def str_eq_datetime_def sync_api_entry_def
  sync_db_entry_def create_and_save_def update_and_save_def save_entry_def add_event_def
  edit_event_def delete_event_def sql_insert_or_replace_def sql_delete_def
  str_int_def str_nat.simps

text \<open>
  An authorization failure of the targets request, or any other status but 200, ends
  \<^verbatim>\<open>main\<close> before any call.
\<close>

lemma main_targets_unauthorized:
  assumes "truthy (mission_calendar cfg)" "truthy (patch_calendar cfg)"
    "truthy (upcoming_calendar cfg)" and "status_code targets_response \<noteq> 200"
  shows "main e cfg pv_response tasks_response targets_response s = (Some (SystemExit 1), s, [])"
  using assms by (simp add: main_def fetch_targets_def Let_def)

section \<open>The claims\<close>

subsection \<open>C1: what counts as a change\<close>

text \<open>
  C1, as amended. The test is \<^verbatim>\<open>db_entry != api_entry\<close>, on the whole
  dictionaries and not on the rendered fields, so a difference in \<open>event_id\<close> alone is a
  change. In a run that ends without an exception, for an id that is cached and fetched,
  whose cached and fetched \<open>event_id\<close> differ and whose rendered summary and start are
  those of no listed event: the calls for the id are one update of the cached event (when
  the cached \<open>event_id\<close> is a non-empty string) or one create (when it is not), which
  returned an id, followed by one store write of the fetched entry with that id as its
  \<open>event_id\<close>; and what was written is the row of the id at the end.
\<close>

theorem differing_event_id_is_synced:
  assumes run: "compare_and_update e db_entries api_entries et calendar_id w = (None, w')"
    and db: "map_of (index_rows_by_id db_entries) i = Some y"
    and api: "map_of (index_by_id api_entries) i = Some x"
    and diff: "event_id (entry_of y) \<noteq> event_id x"
    and ren: "render e et x = Inr (summ, st, en, descr)"
    and win: "\<forall>items. events_list e calendar_id = Some items \<longrightarrow>
                (\<forall>ev \<in> set items. \<not> (summary ev = Some summ \<and> start_dateTime ev = Some st))"
  shows "\<exists>new_id z.
           calls_for i (trace w') = calls_for i (trace w) @
             [if truthy (event_id (entry_of y))
              then EditEvent calendar_id i (the (event_id (entry_of y))) summ st en descr (Some new_id)
              else AddEvent calendar_id i summ st en descr (Some new_id),
              SaveToDb et z False] \<and>
           z = set_event_id (Some new_id) x \<and> event_id z = Some new_id \<and>
           row_of (db w') i = Some (Row z)"
proof -
  from compare_and_update_fetched[OF run api] obtain up w0 w2
    where up: "get_upcoming_events e calendar_id = Inr up"
      and s: "sync_api_entry e et calendar_id up (index_rows_by_id db_entries) i x w0 = (None, w2)"
      and u0: "untouched i w w0" and u2: "untouched i w2 w'" and idx: "entry_id x = i"
    by blast
  from diff have ne: "\<not> dict_eq y x" by (auto dest: dict_eq_event_id)
  let ?c = "\<lambda>new_id. if truthy (event_id (entry_of y))
              then EditEvent calendar_id i (the (event_id (entry_of y))) summ st en descr (Some new_id)
              else AddEvent calendar_id i summ st en descr (Some new_id)"
  from sync_api_entry_cached[OF s db ne ren no_listed_match[OF up win]] obtain new_id where
    t: "trace w2 = trace w0 @ [?c new_id, SaveToDb et (set_event_id (Some new_id) x) False]"
    and d: "db w2 = sql_insert_or_replace (set_event_id (Some new_id) x) (db w0)" by blast
  have c: "call_id (?c new_id) = i" by simp
  from idx have z: "entry_id (set_event_id (Some new_id) x) = i" by simp
  from calls_and_row_after[OF u0 u2 t d c z] show ?thesis by auto
qed

text \<open>
  An instance: the row of the target carries the event \<open>ev7\<close>, the fetched entry has no
  \<open>event_id\<close> and is otherwise what was stored; the event is updated and the row written.
\<close>

theorem differing_event_id_is_synced_witness:
  "compare_and_update calendar_ok [Row (target1 (Some ''ev7''))] [target1 None] target ''u''
        \<lparr> db = [Row (target1 (Some ''ev7''))], trace = [] \<rparr>
     = (None, \<lparr> db = [Row (target1 (Some ''ev7''))],
          trace = [EditEvent ''u'' ''acme'' ''ev7'' ''ACME'' 200 200
                     ''Category: Web, Discovery: False, Vuln Accepted: 3, Dynamic Payment Percentage: 0.0''
                     (Some ''ev7''),
                   SaveToDb target (target1 (Some ''ev7'')) False] \<rparr>) \<and>
   map_of (index_rows_by_id [Row (target1 (Some ''ev7''))]) ''acme'' = Some (Row (target1 (Some ''ev7''))) \<and>
   map_of (index_by_id [target1 None]) ''acme'' = Some (target1 None) \<and>
   event_id (entry_of (Row (target1 (Some ''ev7'')))) \<noteq> event_id (target1 None) \<and>
   render calendar_ok target (target1 None) = Inr (''ACME'', 200, 200,
       ''Category: Web, Discovery: False, Vuln Accepted: 3, Dynamic Payment Percentage: 0.0'') \<and>
   events_list calendar_ok ''u'' = Some [] \<and>
   (\<exists>new_id z.
      calls_for ''acme''
          [EditEvent ''u'' ''acme'' ''ev7'' ''ACME'' 200 200
             ''Category: Web, Discovery: False, Vuln Accepted: 3, Dynamic Payment Percentage: 0.0''
             (Some ''ev7''),
           SaveToDb target (target1 (Some ''ev7'')) False]
        = [EditEvent ''u'' ''acme'' ''ev7'' ''ACME'' 200 200
             ''Category: Web, Discovery: False, Vuln Accepted: 3, Dynamic Payment Percentage: 0.0''
             (Some new_id),
           SaveToDb target z False] \<and>
      z = set_event_id (Some new_id) (target1 None) \<and> event_id z = Some new_id \<and>
      row_of [Row (target1 (Some ''ev7''))] ''acme'' = Some (Row z))"
proof -
  let ?w = "\<lparr> db = [Row (target1 (Some ''ev7''))], trace = [] \<rparr>"
  let ?w' = "\<lparr> db = [Row (target1 (Some ''ev7''))],
          trace = [EditEvent ''u'' ''acme'' ''ev7'' ''ACME'' 200 200
                     ''Category: Web, Discovery: False, Vuln Accepted: 3, Dynamic Payment Percentage: 0.0''
                     (Some ''ev7''),
                   SaveToDb target (target1 (Some ''ev7'')) False] \<rparr>"
  have run: "compare_and_update calendar_ok [Row (target1 (Some ''ev7''))] [target1 None] target ''u'' ?w
               = (None, ?w')"
    by (simp add: calendar_ok_def target1_def run_simps str_bool_def)
  have d: "map_of (index_rows_by_id [Row (target1 (Some ''ev7''))]) ''acme''
             = Some (Row (target1 (Some ''ev7'')))"
    by (simp add: target1_def index_rows_by_id_def)
  have a: "map_of (index_by_id [target1 None]) ''acme'' = Some (target1 None)"
    by (simp add: target1_def index_by_id_def)
  have diff: "event_id (entry_of (Row (target1 (Some ''ev7'')))) \<noteq> event_id (target1 None)"
    by (simp add: target1_def)
  have ren: "render calendar_ok target (target1 None) = Inr (''ACME'', 200, 200,
       ''Category: Web, Discovery: False, Vuln Accepted: 3, Dynamic Payment Percentage: 0.0'')"
    by (simp add: calendar_ok_def target1_def str_bool_def str_int_def str_nat.simps)
  have l: "events_list calendar_ok ''u'' = Some []" by (simp add: calendar_ok_def)
  have win: "\<forall>items. events_list calendar_ok ''u'' = Some items \<longrightarrow>
                (\<forall>ev \<in> set items. \<not> (summary ev = Some ''ACME'' \<and> start_dateTime ev = Some 200))"
    by (simp add: calendar_ok_def)
  have e: "calls_for ''acme'' [] = []" by (simp add: calls_for_def)
  from differing_event_id_is_synced[OF run d a diff ren win] run d a diff ren l show ?thesis
    by (simp add: e target1_def)
qed

text \<open>
  C1 as stated fails: here the cached entry of \<open>t1\<close> differs from the fetched one in
  \<open>event_id\<close> only (the cache has \<open>ev1\<close>, the fetch has none), both render to the same
  summary, start, end and description, no event is listed, and the run updates the event
  and writes the row.
\<close>

theorem event_id_difference_is_updated:
  "set_event_id None (task1 (Some ''ev1'')) = task1 None \<and>
   render calendar_ok task (task1 (Some ''ev1'')) = render calendar_ok task (task1 None) \<and>
   compare_and_update calendar_ok [Row (task1 (Some ''ev1''))] [task1 None] task ''m''
        \<lparr> db = [Row (task1 (Some ''ev1''))], trace = [] \<rparr>
     = (None, \<lparr> db = [Row (task1 (Some ''ev1''))],
          trace = [EditEvent ''m'' ''t1'' ''ev1'' ''500 - Fix XSS - alpha'' 100 3700 ''d'' (Some ''ev1''),
                   SaveToDb task (task1 (Some ''ev1'')) False] \<rparr>)"
  by (simp add: calendar_ok_def task1_def run_simps)

subsection \<open>C2: a second run\<close>

text \<open>
  C2, as amended. Let a first run, on the whole table as the cached set, end without an
  exception, with a calendar that never returns an empty event id. A second run on the
  rows the first one left, with the same fetched list, the same environment (so the same
  listing and clock) and the calls continuing the first run's, creates no event, deletes
  no event and deletes no row. It may update events and write rows again, as the run
  after the witness shows for an entry that the first run created.
\<close>

theorem second_run_creates_and_deletes_nothing:
  assumes run1: "compare_and_update e (db w) api_entries et calendar_id w = (None, w1)"
    and pk: "distinct (map row_id (db w))"
    and ins: "\<forall>t c b. events_insert e t c b \<noteq> Some []"
    and upd: "\<forall>t c j b. events_update e t c j b \<noteq> Some []"
    and run2: "compare_and_update e (db w1) api_entries et calendar_id w1 = (r2, w2)"
  shows "\<exists>new. trace w2 = trace w1 @ new \<and> (\<forall>c \<in> set new. \<not> creates c \<and> \<not> deletes c)"
proof -
  let ?api = "index_by_id api_entries"
  let ?db1 = "index_rows_by_id (db w)" and ?db2 = "index_rows_by_id (db w1)"
  let ?I = "\<lambda>v. \<exists>new. trace v = trace w1 @ new \<and> (\<forall>c \<in> set new. \<not> creates c \<and> \<not> deletes c)"
  from run1 obtain up where up: "get_upcoming_events e calendar_id = Inr up"
    by (cases "get_upcoming_events e calendar_id") (auto simp: compare_and_update_def)
  obtain ra wa where la: "api_loop e et calendar_id up ?db1 ?api w = (ra, wa)"
    by (cases "api_loop e et calendar_id up ?db1 ?api w")
  with run1 up have ra: "ra = None" by (cases ra) (auto simp: compare_and_update_def)
  with run1 up la have lb: "db_loop e et calendar_id ?api ?db1 wa = (None, w1)"
    by (simp add: compare_and_update_def)
  have pk1: "distinct (map row_id (db w1))"
    using run1 pk by (rule compare_and_update_distinct)
  have rows: "\<forall>p \<in> set ?api. map_of ?db1 (fst p) = row_of (db w) (fst p)"
    using pk by (simp add: index_rows_by_id_row_of)
  from api_loop_settles[OF la[unfolded ra] index_by_id_distinct index_by_id_keyed rows ins upd]
  have sa: "\<forall>p \<in> set ?api. settled e et up (snd p) (row_of (db wa) (fst p))" .
  have s1: "settled e et up (snd p) (map_of ?db2 (fst p))" if p: "p \<in> set ?api" for p
  proof -
    from p index_by_id_distinct[of api_entries] have m: "map_of ?api (fst p) = Some (snd p)"
      by (cases p) auto
    then have "\<forall>q \<in> set ?db1. fst q = fst p \<longrightarrow>
           (\<forall>w0 r0 w1. sync_db_entry e et calendar_id ?api (fst q) (snd q) w0 = (r0, w1) \<longrightarrow> untouched (fst p) w0 w1)"
      by (auto dest: sync_db_entry_present)
    with lb index_rows_by_id_keyed have "untouched (fst p) wa w1" by (rule db_loop_untouched)
    with sa p pk1 show ?thesis by (simp add: untouched_def index_rows_by_id_row_of)
  qed
  obtain rc wc where lc: "api_loop e et calendar_id up ?db2 ?api w1 = (rc, wc)"
    by (cases "api_loop e et calendar_id up ?db2 ?api w1")
  have ic: "?I wc"
  proof (rule api_loop_invariant[OF lc, where I = ?I])
    show "?I w1" by simp
  next
    fix p w0 r0 w3
    assume p: "p \<in> set ?api" and i0: "?I w0"
      and s: "sync_api_entry e et calendar_id up ?db2 (fst p) (snd p) w0 = (r0, w3)"
    from sync_api_entry_settled[OF s s1[OF p]] obtain n2 where
      n2: "trace w3 = trace w0 @ n2" "\<forall>c \<in> set n2. \<not> creates c \<and> \<not> deletes c" by blast
    from i0 obtain n1 where
      n1: "trace w0 = trace w1 @ n1" "\<forall>c \<in> set n1. \<not> creates c \<and> \<not> deletes c" by blast
    from n1 n2 show "?I w3" by (intro exI[of _ "n1 @ n2"]) auto
  qed
  show ?thesis
  proof (cases rc)
    case (Some err)
    with run2 up lc have "w2 = wc" by (simp add: compare_and_update_def)
    with ic show ?thesis by simp
  next
    case None
    with run2 up lc have ld: "db_loop e et calendar_id ?api ?db2 wc = (r2, w2)"
      by (simp add: compare_and_update_def)
    show ?thesis
    proof (rule db_loop_invariant[OF ld, where I = ?I])
      show "?I wc" by (rule ic)
    next
      fix p w0 r0 w3
      assume p: "p \<in> set ?db2" and i0: "?I w0"
        and s: "sync_db_entry e et calendar_id ?api (fst p) (snd p) w0 = (r0, w3)"
      from p index_rows_by_id_distinct[of "db w1"] have "map_of ?db2 (fst p) = Some (snd p)"
        by (cases p) auto
      with pk1 have "row_of (db w1) (fst p) \<noteq> None" by (simp add: index_rows_by_id_row_of)
      with compare_and_update_rows_fetched[OF run1, of "fst p"]
      have "fst p \<in> fst ` set ?api" by blast
      then have "map_of ?api (fst p) \<noteq> None" by (simp add: map_of_eq_None_iff)
      with s have "w3 = w0" by (rule sync_db_entry_present)
      with i0 show "?I w3" by simp
    qed
  qed
qed

text \<open>
  An instance: a new target is created by the first run; the second run adds an update
  and a store write, no create and no delete.
\<close>

theorem second_run_creates_and_deletes_nothing_witness:
  "compare_and_update calendar_ok [] [target1 None] target ''u'' \<lparr> db = [], trace = [] \<rparr>
     = (None, \<lparr> db = [Row (target1 (Some ''ev1''))],
          trace = [AddEvent ''u'' ''acme'' ''ACME'' 200 200
                     ''Category: Web, Discovery: False, Vuln Accepted: 3, Dynamic Payment Percentage: 0.0''
                     (Some ''ev1''),
                   SaveToDb target (target1 (Some ''ev1'')) False] \<rparr>) \<and>
   distinct (map row_id ([] :: row list)) \<and>
   (\<forall>t c b. events_insert calendar_ok t c b \<noteq> Some []) \<and>
   (\<forall>t c j b. events_update calendar_ok t c j b \<noteq> Some []) \<and>
   (\<exists>new. trace (snd (compare_and_update calendar_ok [Row (target1 (Some ''ev1''))] [target1 None] target ''u''
        \<lparr> db = [Row (target1 (Some ''ev1''))],
          trace = [AddEvent ''u'' ''acme'' ''ACME'' 200 200
                     ''Category: Web, Discovery: False, Vuln Accepted: 3, Dynamic Payment Percentage: 0.0''
                     (Some ''ev1''),
                   SaveToDb target (target1 (Some ''ev1'')) False] \<rparr>))
      = [AddEvent ''u'' ''acme'' ''ACME'' 200 200
                     ''Category: Web, Discovery: False, Vuln Accepted: 3, Dynamic Payment Percentage: 0.0''
                     (Some ''ev1''),
         SaveToDb target (target1 (Some ''ev1'')) False] @ new \<and>
      list_all (\<lambda>c. \<not> creates c \<and> \<not> deletes c) new)"
proof -
  let ?w0 = "\<lparr> db = [], trace = [] \<rparr>"
  let ?w1 = "\<lparr> db = [Row (target1 (Some ''ev1''))],
          trace = [AddEvent ''u'' ''acme'' ''ACME'' 200 200
                     ''Category: Web, Discovery: False, Vuln Accepted: 3, Dynamic Payment Percentage: 0.0''
                     (Some ''ev1''),
                   SaveToDb target (target1 (Some ''ev1'')) False] \<rparr>"
  have run1: "compare_and_update calendar_ok (db ?w0) [target1 None] target ''u'' ?w0 = (None, ?w1)"
    by (simp add: calendar_ok_def target1_def run_simps str_bool_def)
  have pk: "distinct (map row_id (db ?w0))" by simp
  have ins: "\<forall>t c b. events_insert calendar_ok t c b \<noteq> Some []" by (simp add: calendar_ok_def)
  have upd: "\<forall>t c j b. events_update calendar_ok t c j b \<noteq> Some []" by (simp add: calendar_ok_def)
  obtain r2 w2 where run2: "compare_and_update calendar_ok (db ?w1) [target1 None] target ''u'' ?w1 = (r2, w2)"
    by (cases "compare_and_update calendar_ok (db ?w1) [target1 None] target ''u'' ?w1")
  from second_run_creates_and_deletes_nothing[OF run1 pk ins upd run2] run2 run1 ins upd show ?thesis
    by (simp add: list_all_iff)
qed

text \<open>
  C2 as stated fails: the first run, from an empty cache and with no event listed, creates
  the event of the target and stores its row with \<open>ev1\<close>; the second run, on that row,
  the same fetched entry and the same empty listing, updates the event and writes the row
  again.
\<close>

theorem second_run_updates_again:
  "compare_and_update calendar_ok [] [target1 None] target ''u'' \<lparr> db = [], trace = [] \<rparr>
     = (None, \<lparr> db = [Row (target1 (Some ''ev1''))],
          trace = [AddEvent ''u'' ''acme'' ''ACME'' 200 200
                     ''Category: Web, Discovery: False, Vuln Accepted: 3, Dynamic Payment Percentage: 0.0''
                     (Some ''ev1''),
                   SaveToDb target (target1 (Some ''ev1'')) False] \<rparr>) \<and>
   compare_and_update calendar_ok [Row (target1 (Some ''ev1''))] [target1 None] target ''u''
        \<lparr> db = [Row (target1 (Some ''ev1''))], trace = [] \<rparr>
     = (None, \<lparr> db = [Row (target1 (Some ''ev1''))],
          trace = [EditEvent ''u'' ''acme'' ''ev1'' ''ACME'' 200 200
                     ''Category: Web, Discovery: False, Vuln Accepted: 3, Dynamic Payment Percentage: 0.0''
                     (Some ''ev1''),
                   SaveToDb target (target1 (Some ''ev1'')) False] \<rparr>)"
  by (simp add: calendar_ok_def target1_def run_simps str_bool_def)

subsection \<open>C3: a create that fails\<close>

text \<open>
  C3, as amended. \<^verbatim>\<open>add_event\<close> has no handler and neither has
  \<^verbatim>\<open>compare_and_update\<close>: when the create for an id raises, the run ends with
  that exception, the failed create is its last call (no later id is processed), it is
  the only call made for the id, and the row of the id is as it was (nothing is written,
  in particular no row with a null \<open>event_id\<close>).
\<close>

theorem failed_create_ends_the_run:
  assumes run: "compare_and_update e db_entries api_entries et calendar_id w = (r, w')"
    and c: "c = AddEvent calendar_id i summ st en descr None"
    and new: "c \<in> set (trace w')" "c \<notin> set (trace w)"
  shows "r = Some HttpError \<and> last (trace w') = c \<and>
         calls_for i (trace w') = calls_for i (trace w) @ [c] \<and>
         row_of (db w') i = row_of (db w) i"
proof -
  let ?db = "index_rows_by_id db_entries" and ?api = "index_by_id api_entries"
  from c have fc: "failed_create c" and ci: "call_id c = i" by simp_all
  from run new obtain up where up: "get_upcoming_events e calendar_id = Inr up"
    by (cases "get_upcoming_events e calendar_id") (auto simp: compare_and_update_def)
  obtain r1 w1 where l1: "api_loop e et calendar_id up ?db ?api w = (r1, w1)"
    by (cases "api_loop e et calendar_id up ?db ?api w")
  have in1: "c \<in> set (trace w1)"
  proof (cases r1)
    case (Some err)
    with run up l1 have "w' = w1" by (simp add: compare_and_update_def)
    with new(1) show ?thesis by simp
  next
    case None
    with run up l1 have "db_loop e et calendar_id ?api ?db w1 = (r, w')"
      by (simp add: compare_and_update_def)
    from db_loop_no_create[OF this] new(1) fc show ?thesis by auto
  qed
  from api_loop_failed_create[OF l1 index_by_id_distinct index_by_id_keyed in1 new(2) fc]
  have f: "r1 = Some HttpError" "\<exists>pre. trace w1 = pre @ [c]"
    "calls_for (call_id c) (trace w1) = calls_for (call_id c) (trace w) @ [c]"
    "row_of (db w1) (call_id c) = row_of (db w) (call_id c)" by auto
  with run up l1 have "w' = w1" "r = Some HttpError" by (auto simp: compare_and_update_def)
  with f ci show ?thesis by auto
qed

text \<open>
  An instance: the calendar refuses the event of \<open>t1\<close>; the run ends there.
\<close>

theorem failed_create_ends_the_run_witness:
  "compare_and_update calendar_insert_fails [] [task1 None, task2 None] task ''m''
        \<lparr> db = [], trace = [] \<rparr>
     = (Some HttpError,
        \<lparr> db = [],
          trace = [AddEvent ''m'' ''t1'' ''500 - Fix XSS - alpha'' 100 3700 ''d'' None] \<rparr>) \<and>
   last [AddEvent ''m'' ''t1'' ''500 - Fix XSS - alpha'' 100 3700 ''d'' None]
     = AddEvent ''m'' ''t1'' ''500 - Fix XSS - alpha'' 100 3700 ''d'' None \<and>
   calls_for ''t1'' [AddEvent ''m'' ''t1'' ''500 - Fix XSS - alpha'' 100 3700 ''d'' None]
     = [AddEvent ''m'' ''t1'' ''500 - Fix XSS - alpha'' 100 3700 ''d'' None] \<and>
   row_of [] ''t1'' = None"
proof -
  let ?c = "AddEvent ''m'' ''t1'' ''500 - Fix XSS - alpha'' 100 3700 ''d'' None"
  let ?w = "\<lparr> db = [], trace = [] \<rparr>" and ?w' = "\<lparr> db = [], trace = [?c] \<rparr>"
  have run: "compare_and_update calendar_insert_fails [] [task1 None, task2 None] task ''m'' ?w
               = (Some HttpError, ?w')"
    by (simp add: task1_def task2_def calendar_insert_fails_def calendar_ok_def run_simps)
  have "?c \<in> set (trace ?w')" "?c \<notin> set (trace ?w)" by simp_all
  from failed_create_ends_the_run[OF run refl this] run show ?thesis
    by (simp add: calls_for_def row_of_def)
qed

text \<open>
  C3 as stated fails: the calendar refuses the event of \<open>t1\<close> and would accept the one
  of \<open>t2\<close>, as the second run shows; with \<open>t1\<close> before it in the fetched list, \<open>t2\<close>
  is never processed.
\<close>

theorem failed_create_skips_sibling:
  "compare_and_update calendar_insert_fails [] [task1 None, task2 None] task ''m''
        \<lparr> db = [], trace = [] \<rparr>
     = (Some HttpError,
        \<lparr> db = [],
          trace = [AddEvent ''m'' ''t1'' ''500 - Fix XSS - alpha'' 100 3700 ''d'' None] \<rparr>) \<and>
   compare_and_update calendar_insert_fails [] [task2 None] task ''m''
        \<lparr> db = [], trace = [] \<rparr>
     = (None,
        \<lparr> db = [Row (task2 (Some ''ev2''))],
          trace = [AddEvent ''m'' ''t2'' ''20 - Check headers - beta'' 150 750 ''e'' (Some ''ev2''),
                   SaveToDb task (task2 (Some ''ev2'')) False] \<rparr>)"
  by (simp add: task1_def task2_def calendar_insert_fails_def calendar_ok_def run_simps)

subsection \<open>C4: the check against upcoming events\<close>

text \<open>
  C4, as amended. The check reads the dictionary that \<^verbatim>\<open>get_upcoming_events\<close>
  returns, which keeps one event per summary. When the rendered summary and start of a
  fetched entry are those of an event kept in that dictionary,
  \<^verbatim>\<open>compare_and_update\<close> makes no call for the entry's id and leaves its row as it
  is, whether or not the id is in the cache.
\<close>

theorem retained_event_match_skips_entry:
  assumes "compare_and_update e db_entries api_entries et calendar_id w = (r, w')"
    and "map_of (index_by_id api_entries) i = Some x"
    and "render e et x = Inr (summ, st, en, descr)"
    and "get_upcoming_events e calendar_id = Inr upcoming_events"
    and "ev \<in> snd ` set upcoming_events"
    and "summary ev = Some summ" and "start_dateTime ev = Some st"
  shows "calls_for i (trace w') = calls_for i (trace w) \<and> row_of (db w') i = row_of (db w) i"
proof -
  have ex: "event_exists (map snd upcoming_events) summ st \<noteq> Inr False"
    using assms(5,6,7) by (intro event_exists_match[of ev]) auto
  have "untouched i w w'"
  proof (rule compare_and_update_untouched[OF assms(1)])
    fix upcoming y w0 r0 w1
    assume "get_upcoming_events e calendar_id = Inr upcoming"
      and "map_of (index_by_id api_entries) i = Some y"
      and "sync_api_entry e et calendar_id upcoming (index_rows_by_id db_entries) i y w0 = (r0, w1)"
    with assms(2,3,4) ex show "w1 = w0" by (auto dest: sync_api_entry_exists)
  next
    fix y w0 r0 w1
    assume "sync_db_entry e et calendar_id (index_by_id api_entries) i y w0 = (r0, w1)"
    with assms(2) show "w1 = w0" by (auto dest: sync_db_entry_present)
  qed
  then show ?thesis by (simp add: untouched_def)
qed

text \<open>
  An instance: two events with the summary of \<open>t1\<close> are listed and the last one starts
  when \<open>t1\<close> does; nothing is done for \<open>t1\<close>, which is not in the cache.
\<close>

theorem retained_event_match_skips_entry_witness:
  "compare_and_update calendar_last_match [] [task1 None] task ''m'' \<lparr> db = [], trace = [] \<rparr>
     = (None, \<lparr> db = [], trace = [] \<rparr>) \<and>
   map_of (index_by_id [task1 None]) ''t1'' = Some (task1 None) \<and>
   render calendar_last_match task (task1 None) = Inr (''500 - Fix XSS - alpha'', 100, 3700, ''d'') \<and>
   get_upcoming_events calendar_last_match ''m'' = Inr [(''500 - Fix XSS - alpha'', event_at 100)] \<and>
   summary (event_at 100) = Some ''500 - Fix XSS - alpha'' \<and>
   start_dateTime (event_at 100) = Some 100 \<and>
   calls_for ''t1'' [] = [] \<and> row_of [] ''t1'' = None"
proof -
  let ?w = "\<lparr> db = [], trace = [] \<rparr>"
  have run: "compare_and_update calendar_last_match [] [task1 None] task ''m'' ?w = (None, ?w)"
    by (simp add: task1_def event_at_def calendar_last_match_def calendar_ok_def run_simps)
  have a: "map_of (index_by_id [task1 None]) ''t1'' = Some (task1 None)"
    by (simp add: task1_def event_at_def calendar_last_match_def calendar_ok_def index_by_id_def)
  have ren: "render calendar_last_match task (task1 None)
               = Inr (''500 - Fix XSS - alpha'', 100, 3700, ''d'')"
    by (simp add: task1_def event_at_def calendar_last_match_def calendar_ok_def run_simps)
  have up: "get_upcoming_events calendar_last_match ''m''
              = Inr [(''500 - Fix XSS - alpha'', event_at 100)]"
    by (simp add: task1_def event_at_def calendar_last_match_def calendar_ok_def run_simps)
  have mem: "event_at 100 \<in> snd ` set [(''500 - Fix XSS - alpha'', event_at 100)]" by simp
  have s: "summary (event_at 100) = Some ''500 - Fix XSS - alpha''"
    and t: "start_dateTime (event_at 100) = Some 100" by (simp_all add: event_at_def)
  from retained_event_match_skips_entry[OF run a ren up mem s t] run a ren up s t show ?thesis
    by (simp add: calls_for_def row_of_def)
qed

text \<open>
  C4 as stated fails: the listing holds an event with the summary and start of \<open>t1\<close>,
  followed by an event with the same summary and a later start. Only the second is kept,
  the check finds no match, and the event of \<open>t1\<close> is created again.
\<close>

theorem shadowed_event_match_is_missed:
  "events_list calendar_earlier_match ''m'' = Some [event_at 100, event_at 200] \<and>
   summary (event_at 100) = Some ''500 - Fix XSS - alpha'' \<and>
   start_dateTime (event_at 100) = Some 100 \<and>
   render calendar_earlier_match task (task1 None)
     = Inr (''500 - Fix XSS - alpha'', 100, 3700, ''d'') \<and>
   compare_and_update calendar_earlier_match [] [task1 None] task ''m'' \<lparr> db = [], trace = [] \<rparr>
     = (None,
        \<lparr> db = [Row (task1 (Some ''ev1''))],
          trace = [AddEvent ''m'' ''t1'' ''500 - Fix XSS - alpha'' 100 3700 ''d'' (Some ''ev1''),
                   SaveToDb task (task1 (Some ''ev1'')) False] \<rparr>)"
  by (simp add: task1_def event_at_def calendar_earlier_match_def calendar_ok_def run_simps)

subsection \<open>C5: an authorization failure of a fetch\<close>

text \<open>
  C5 fails on the code. The tasks request is answered 401, the two other requests 200 with
  no entry; the cache holds one upcoming task with an event. \<^verbatim>\<open>fetch_tasks\<close>
  returns the empty list, the run goes on, and the task's event and row are deleted.
\<close>

theorem unauthorized_tasks_fetch_deletes_cache:
  "main calendar_ok calendars (Response 200 []) (Response 401 []) (Response 200 [])
        \<lparr> tasks = [Row (task1 (Some ''ev1''))], targets = [], patch_verifications = [] \<rparr>
   = (None, \<lparr> tasks = [], targets = [], patch_verifications = [] \<rparr>,
      [DeleteEvent ''m'' ''t1'' ''ev1'' True, SaveToDb task (task1 (Some ''ev1'')) True])"
  by (simp add: main_def calendars_def fetch_tasks_def fetch_targets_def
        fetch_patch_verifications_def get_upcoming_entries_def task1_def calendar_ok_def run_simps)

text \<open>
  Read off the run above: the empty fetch, the emptied table and the two calls.
\<close>

theorem unauthorized_tasks_fetch_deletes_cache_witness:
  "fetch_tasks (Response 401 []) = [] \<and>
   tasks (fst (snd (main calendar_ok calendars (Response 200 []) (Response 401 []) (Response 200 [])
        \<lparr> tasks = [Row (task1 (Some ''ev1''))], targets = [], patch_verifications = [] \<rparr>))) = [] \<and>
   snd (snd (main calendar_ok calendars (Response 200 []) (Response 401 []) (Response 200 [])
        \<lparr> tasks = [Row (task1 (Some ''ev1''))], targets = [], patch_verifications = [] \<rparr>))
     = [DeleteEvent ''m'' ''t1'' ''ev1'' True, SaveToDb task (task1 (Some ''ev1'')) True]"
  using unauthorized_tasks_fetch_deletes_cache by (simp add: fetch_tasks_def)

subsection \<open>C6: an entry that has disappeared upstream\<close>

text \<open>
  C6, as amended. The second loop is reached only when the listing and the first loop
  raise nothing (the second loop itself never raises, \<open>db_loop_None\<close>), and the test on
  the \<open>event_id\<close> is for truth. In a run that ends
  without an exception, for an id that is in the cached set and not in the fetched set:
  the calls for the id are a delete of its event exactly when the \<open>event_id\<close> is neither
  null nor the empty string, followed by the delete of its row, whatever the result
  \<open>ok\<close> of the delete of the event; and the row is gone at the end.
\<close>

theorem disappeared_entry_is_deleted:
  assumes run: "compare_and_update e db_entries api_entries et calendar_id w = (None, w')"
    and db: "map_of (index_rows_by_id db_entries) i = Some y"
    and api: "map_of (index_by_id api_entries) i = None"
  shows "\<exists>ok.
           calls_for i (trace w') = calls_for i (trace w) @
             (if truthy (event_id (entry_of y))
              then [DeleteEvent calendar_id i (the (event_id (entry_of y))) ok] else [])
             @ [SaveToDb et (entry_of y) True] \<and>
           row_of (db w') i = None"
proof -
  from compare_and_update_gone[OF run db api] obtain ok where
    g: "calls_for i (trace w') = calls_for i (trace w) @
             (case event_id (entry_of y) of None \<Rightarrow> []
              | Some ev_id \<Rightarrow> if ev_id \<noteq> [] then [DeleteEvent calendar_id i ev_id ok] else [])
             @ [SaveToDb et (entry_of y) True]"
    and r: "row_of (db w') i = None" by blast
  have "(case event_id (entry_of y) of None \<Rightarrow> []
          | Some ev_id \<Rightarrow> if ev_id \<noteq> [] then [DeleteEvent calendar_id i ev_id ok] else [])
        = (if truthy (event_id (entry_of y))
           then [DeleteEvent calendar_id i (the (event_id (entry_of y))) ok] else [])"
    by (cases "event_id (entry_of y)") simp_all
  with g r show ?thesis by auto
qed

text \<open>
  An instance: \<open>t1\<close> has an event and the calendar refuses to delete it, \<open>t2\<close> has
  none; both rows are deleted.
\<close>

theorem disappeared_entry_is_deleted_witness:
  "compare_and_update calendar_delete_fails [Row (task1 (Some ''ev1'')), Row (task2 None)] [] task ''m''
        \<lparr> db = [Row (task1 (Some ''ev1'')), Row (task2 None)], trace = [] \<rparr>
     = (None,
        \<lparr> db = [],
          trace = [DeleteEvent ''m'' ''t1'' ''ev1'' False, SaveToDb task (task1 (Some ''ev1'')) True,
                   SaveToDb task (task2 None) True] \<rparr>) \<and>
   map_of (index_rows_by_id [Row (task1 (Some ''ev1'')), Row (task2 None)]) ''t1''
     = Some (Row (task1 (Some ''ev1''))) \<and>
   map_of (index_by_id []) ''t1'' = None \<and>
   calls_for ''t1''
       [DeleteEvent ''m'' ''t1'' ''ev1'' False, SaveToDb task (task1 (Some ''ev1'')) True,
        SaveToDb task (task2 None) True]
     = [DeleteEvent ''m'' ''t1'' ''ev1'' False, SaveToDb task (task1 (Some ''ev1'')) True] \<and>
   row_of [] ''t1'' = None"
proof -
  let ?w = "\<lparr> db = [Row (task1 (Some ''ev1'')), Row (task2 None)], trace = [] \<rparr>"
  let ?w' = "\<lparr> db = [],
          trace = [DeleteEvent ''m'' ''t1'' ''ev1'' False, SaveToDb task (task1 (Some ''ev1'')) True,
                   SaveToDb task (task2 None) True] \<rparr>"
  have run: "compare_and_update calendar_delete_fails [Row (task1 (Some ''ev1'')), Row (task2 None)] []
               task ''m'' ?w = (None, ?w')"
    by (simp add: task1_def task2_def calendar_delete_fails_def calendar_ok_def run_simps)
  have d: "map_of (index_rows_by_id [Row (task1 (Some ''ev1'')), Row (task2 None)]) ''t1''
             = Some (Row (task1 (Some ''ev1'')))"
    by (simp add: task1_def task2_def index_rows_by_id_def)
  have a: "map_of (index_by_id []) ''t1'' = None" by (simp add: index_by_id_def)
  from disappeared_entry_is_deleted[OF run d a] run d a show ?thesis
    by (simp add: calls_for_def row_of_def task1_def task2_def)
qed

text \<open>
  C6 as stated fails. In the first run \<open>t2\<close> is cached with the event \<open>ev9\<close> and is
  not fetched, \<open>t1\<close> is fetched and new, and the calendar refuses the event of \<open>t1\<close>:
  the run ends in the first loop, no delete is made for \<open>t2\<close> and its row stays. In the
  second run the cached \<open>event_id\<close> of \<open>t2\<close> is the empty string, which is not null:
  no delete of an event is made.
\<close>

theorem disappeared_entry_is_kept:
  "map_of (index_rows_by_id [Row (task2 (Some ''ev9''))]) ''t2'' = Some (Row (task2 (Some ''ev9''))) \<and>
   map_of (index_by_id [task1 None]) ''t2'' = None \<and>
   compare_and_update calendar_insert_fails [Row (task2 (Some ''ev9''))] [task1 None] task ''m''
        \<lparr> db = [Row (task2 (Some ''ev9''))], trace = [] \<rparr>
     = (Some HttpError,
        \<lparr> db = [Row (task2 (Some ''ev9''))],
          trace = [AddEvent ''m'' ''t1'' ''500 - Fix XSS - alpha'' 100 3700 ''d'' None] \<rparr>) \<and>
   calls_for ''t2'' [AddEvent ''m'' ''t1'' ''500 - Fix XSS - alpha'' 100 3700 ''d'' None] = [] \<and>
   row_of [Row (task2 (Some ''ev9''))] ''t2'' = Some (Row (task2 (Some ''ev9''))) \<and>
   event_id (entry_of (Row (task2 (Some [])))) \<noteq> None \<and>
   compare_and_update calendar_ok [Row (task2 (Some []))] [] task ''m''
        \<lparr> db = [Row (task2 (Some []))], trace = [] \<rparr>
     = (None, \<lparr> db = [], trace = [SaveToDb task (task2 (Some [])) True] \<rparr>)"
  by (simp add: task1_def task2_def calendar_insert_fails_def calendar_ok_def run_simps
        calls_for_def row_of_def)

subsection \<open>C7: a new entry\<close>

text \<open>
  C7, as amended. A create that raises ends the run (C3), so the claim holds of the runs
  that end without an exception. In such a run, for a fetched entry (the one the index
  keeps for its id) whose id is not in the cached set and whose rendered summary and
  start are those of no listed event: the calls for the id are one create, which returned
  an id, followed by one store write of an entry \<open>z\<close>; \<open>z\<close> is the fetched entry with
  its \<open>event_id\<close> set, the \<open>event_id\<close> of \<open>z\<close> is the id that the create returned, and
  the row of \<open>z\<close> is the row of the id at the end.
\<close>

theorem new_entry_is_created_and_saved:
  assumes run: "compare_and_update e db_entries api_entries et calendar_id w = (None, w')"
    and api: "map_of (index_by_id api_entries) i = Some x"
    and db: "map_of (index_rows_by_id db_entries) i = None"
    and ren: "render e et x = Inr (summ, st, en, descr)"
    and win: "\<forall>items. events_list e calendar_id = Some items \<longrightarrow>
                (\<forall>ev \<in> set items. \<not> (summary ev = Some summ \<and> start_dateTime ev = Some st))"
  shows "\<exists>new_id z.
           calls_for i (trace w') = calls_for i (trace w) @
             [AddEvent calendar_id i summ st en descr (Some new_id), SaveToDb et z False] \<and>
           z = set_event_id (Some new_id) x \<and> event_id z = Some new_id \<and>
           row_of (db w') i = Some (Row z)"
proof -
  from compare_and_update_fetched[OF run api] obtain up w0 w2
    where up: "get_upcoming_events e calendar_id = Inr up"
      and s: "sync_api_entry e et calendar_id up (index_rows_by_id db_entries) i x w0 = (None, w2)"
      and u0: "untouched i w w0" and u2: "untouched i w2 w'" and idx: "entry_id x = i"
    by blast
  from sync_api_entry_new[OF s db ren no_listed_match[OF up win]] obtain new_id where
    t: "trace w2 = trace w0 @ [AddEvent calendar_id i summ st en descr (Some new_id),
                               SaveToDb et (set_event_id (Some new_id) x) False]"
    and d: "db w2 = sql_insert_or_replace (set_event_id (Some new_id) x) (db w0)" by blast
  have c: "call_id (AddEvent calendar_id i summ st en descr (Some new_id)) = i" by simp
  from idx have z: "entry_id (set_event_id (Some new_id) x) = i" by simp
  from calls_and_row_after[OF u0 u2 t d c z] show ?thesis by auto
qed

text \<open>
  An instance, the example of the specification: one new task, an empty cache and no
  event listed.
\<close>

theorem new_entry_is_created_and_saved_witness:
  "compare_and_update calendar_ok [] [task1 None] task ''m'' \<lparr> db = [], trace = [] \<rparr>
     = (None,
        \<lparr> db = [Row (task1 (Some ''ev1''))],
          trace = [AddEvent ''m'' ''t1'' ''500 - Fix XSS - alpha'' 100 3700 ''d'' (Some ''ev1''),
                   SaveToDb task (task1 (Some ''ev1'')) False] \<rparr>) \<and>
   map_of (index_by_id [task1 None]) ''t1'' = Some (task1 None) \<and>
   map_of (index_rows_by_id []) ''t1'' = None \<and>
   render calendar_ok task (task1 None) = Inr (''500 - Fix XSS - alpha'', 100, 3700, ''d'') \<and>
   events_list calendar_ok ''m'' = Some [] \<and>
   (\<exists>new_id z.
      calls_for ''t1''
          [AddEvent ''m'' ''t1'' ''500 - Fix XSS - alpha'' 100 3700 ''d'' (Some ''ev1''),
           SaveToDb task (task1 (Some ''ev1'')) False]
        = [AddEvent ''m'' ''t1'' ''500 - Fix XSS - alpha'' 100 3700 ''d'' (Some new_id),
           SaveToDb task z False] \<and>
      z = set_event_id (Some new_id) (task1 None) \<and> event_id z = Some new_id \<and>
      row_of [Row (task1 (Some ''ev1''))] ''t1'' = Some (Row z))"
proof -
  let ?w = "\<lparr> db = [], trace = [] \<rparr>"
  let ?w' = "\<lparr> db = [Row (task1 (Some ''ev1''))],
          trace = [AddEvent ''m'' ''t1'' ''500 - Fix XSS - alpha'' 100 3700 ''d'' (Some ''ev1''),
                   SaveToDb task (task1 (Some ''ev1'')) False] \<rparr>"
  have run: "compare_and_update calendar_ok [] [task1 None] task ''m'' ?w = (None, ?w')"
    by (simp add: calendar_ok_def task1_def run_simps)
  have a: "map_of (index_by_id [task1 None]) ''t1'' = Some (task1 None)"
    by (simp add: calendar_ok_def task1_def index_by_id_def)
  have d: "map_of (index_rows_by_id []) ''t1'' = None" by (simp add: index_rows_by_id_def)
  have ren: "render calendar_ok task (task1 None) = Inr (''500 - Fix XSS - alpha'', 100, 3700, ''d'')"
    by (simp add: calendar_ok_def task1_def run_simps)
  have l: "events_list calendar_ok ''m'' = Some []" by (simp add: calendar_ok_def)
  have win: "\<forall>items. events_list calendar_ok ''m'' = Some items \<longrightarrow>
                (\<forall>ev \<in> set items. \<not> (summary ev = Some ''500 - Fix XSS - alpha'' \<and> start_dateTime ev = Some 100))"
    by (simp add: calendar_ok_def)
  have e: "calls_for ''t1'' [] = []" by (simp add: calls_for_def)
  from new_entry_is_created_and_saved[OF run a d ren win] run a d ren l show ?thesis by (simp add: e)
qed

text \<open>
  C7 as stated fails. Both tasks are new and no event is listed. In the first run the
  calendar refuses the event of \<open>t1\<close>: one create is made for \<open>t1\<close> and no store
  write follows. In the second run \<open>t2\<close> is fetched after \<open>t1\<close>: the run has ended
  before \<open>t2\<close>, for which no create is made, though the calendar would accept its event.
\<close>

theorem new_entry_is_not_saved:
  "map_of (index_rows_by_id []) ''t1'' = None \<and> map_of (index_rows_by_id []) ''t2'' = None \<and>
   get_upcoming_events calendar_insert_fails ''m'' = Inr [] \<and>
   compare_and_update calendar_insert_fails [] [task1 None] task ''m'' \<lparr> db = [], trace = [] \<rparr>
     = (Some HttpError,
        \<lparr> db = [],
          trace = [AddEvent ''m'' ''t1'' ''500 - Fix XSS - alpha'' 100 3700 ''d'' None] \<rparr>) \<and>
   row_of [] ''t1'' = None \<and>
   map_of (index_by_id [task1 None, task2 None]) ''t2'' = Some (task2 None) \<and>
   compare_and_update calendar_insert_fails [] [task1 None, task2 None] task ''m''
        \<lparr> db = [], trace = [] \<rparr>
     = (Some HttpError,
        \<lparr> db = [],
          trace = [AddEvent ''m'' ''t1'' ''500 - Fix XSS - alpha'' 100 3700 ''d'' None] \<rparr>) \<and>
   calls_for ''t2'' [AddEvent ''m'' ''t1'' ''500 - Fix XSS - alpha'' 100 3700 ''d'' None] = [] \<and>
   events_insert calendar_insert_fails 0 ''m''
       \<lparr> summary = Some ''20 - Check headers - beta'', location = None,
         ev_description = Some ''e'', start_dateTime = Some 150, end_dateTime = Some 750 \<rparr>
     = Some ''ev2''"
  by (simp add: task1_def task2_def calendar_insert_fails_def calendar_ok_def run_simps
        calls_for_def row_of_def)

subsection \<open>C8: two fetched entries with one id\<close>

text \<open>
  C8. Indexing the fetched entries by id keeps one entry per id, the one that comes last in
  the list, and \<^verbatim>\<open>compare_and_update\<close> depends on the fetched list through that
  index only: it does the same on the list of the entries kept.
\<close>

theorem index_by_id_keeps_last:
  "distinct (map fst (index_by_id api_entries)) \<and>
   map_of (index_by_id api_entries) i = find (\<lambda>x. entry_id x = i) (rev api_entries) \<and>
   compare_and_update e db_entries api_entries et calendar_id w =
     compare_and_update e db_entries (map snd (index_by_id api_entries)) et calendar_id w"
proof -
  have "distinct (map fst (index_by_id api_entries))"
    using distinct_index_entries[of "[]" entry_id api_entries] by (simp add: index_by_id_def)
  moreover have "map_of (index_by_id api_entries) i = find (\<lambda>x. entry_id x = i) (rev api_entries)"
    by (simp add: index_by_id_def map_of_index_entries split: option.splits)
  moreover have "compare_and_update e db_entries api_entries et calendar_id w =
     compare_and_update e db_entries (map snd (index_by_id api_entries)) et calendar_id w"
    unfolding compare_and_update_def index_by_id_idem by (rule refl)
  ultimately show ?thesis by blast
qed

text \<open>
  An instance: \<open>t1\<close> is fetched twice; the second entry is kept, at the place of the
  first.
\<close>

theorem index_by_id_keeps_last_witness:
  "map_of (index_by_id [task1 None, task2 None, task1 (Some ''ev9'')]) ''t1'' = Some (task1 (Some ''ev9'')) \<and>
   map fst (index_by_id [task1 None, task2 None, task1 (Some ''ev9'')]) = [''t1'', ''t2'']"
proof -
  have "find (\<lambda>x. entry_id x = ''t1'') (rev [task1 None, task2 None, task1 (Some ''ev9'')])
          = Some (task1 (Some ''ev9''))"
    by (simp add: task1_def task2_def)
  with index_by_id_keeps_last[of "[task1 None, task2 None, task1 (Some ''ev9'')]" "''t1''"]
  have "map_of (index_by_id [task1 None, task2 None, task1 (Some ''ev9'')]) ''t1'' = Some (task1 (Some ''ev9''))"
    by simp
  moreover have "map fst (index_by_id [task1 None, task2 None, task1 (Some ''ev9'')]) = [''t1'', ''t2'']"
    by (simp add: index_by_id_def task1_def task2_def)
  ultimately show ?thesis by simp
qed

subsection \<open>C9: upcoming events are keyed by summary\<close>

text \<open>
  C9. \<^verbatim>\<open>get_upcoming_events\<close> returns a dictionary keyed by summary: of the
  listed events with one summary it keeps the last one. The search for an existing event
  sees no other: when the last listed event with the summary \<open>s\<close> does not start at
  \<open>st\<close>, the search does not find \<open>(s, st)\<close>, whatever was listed before it.
\<close>

theorem get_upcoming_events_keeps_last_summary:
  assumes "events_list e calendar_id = Some items"
    and "get_upcoming_events e calendar_id = Inr upcoming_events"
  shows "distinct (map fst upcoming_events) \<and>
         map_of upcoming_events s = find (\<lambda>ev. summary ev = Some s) (rev items) \<and>
         (\<forall>ev. find (\<lambda>ev. summary ev = Some s) (rev items) = Some ev \<and> start_dateTime ev \<noteq> Some st
            \<longrightarrow> event_exists (map snd upcoming_events) s st \<noteq> Inr True)"
proof -
  from assms have b: "by_summary [] items = Inr upcoming_events"
    by (simp add: get_upcoming_events_def)
  have d: "distinct (map fst upcoming_events)" using by_summary_distinct[OF b] by simp
  have m: "map_of upcoming_events s = find (\<lambda>ev. summary ev = Some s) (rev items)"
    using by_summary_map_of[OF b, of s] by (simp split: option.splits)
  have k: "\<forall>p \<in> set upcoming_events. summary (snd p) = Some (fst p)"
    using by_summary_keyed[OF b] by simp
  have "event_exists (map snd upcoming_events) s st \<noteq> Inr True"
    if l: "find (\<lambda>ev. summary ev = Some s) (rev items) = Some ev" and n: "start_dateTime ev \<noteq> Some st" for ev
  proof
    assume "event_exists (map snd upcoming_events) s st = Inr True"
    from event_exists_True[OF this] obtain p where p: "p \<in> set upcoming_events"
      "summary (snd p) = Some s" "start_dateTime (snd p) = Some st" by auto
    with k have "fst p = s" by auto
    with p(1) d have "map_of upcoming_events s = Some (snd p)" by (cases p) auto
    with m l have "snd p = ev" by simp
    with p(3) n show False by simp
  qed
  with d m show ?thesis by blast
qed

text \<open>
  An instance: two events with one summary, starting at 100 and at 200; the second is
  kept and a search for the start 100 finds nothing.
\<close>

theorem get_upcoming_events_keeps_last_summary_witness:
  "events_list calendar_earlier_match ''m'' = Some [event_at 100, event_at 200] \<and>
   get_upcoming_events calendar_earlier_match ''m'' = Inr [(''500 - Fix XSS - alpha'', event_at 200)] \<and>
   map_of [(''500 - Fix XSS - alpha'', event_at 200)] ''500 - Fix XSS - alpha'' = Some (event_at 200) \<and>
   event_exists (map snd [(''500 - Fix XSS - alpha'', event_at 200)]) ''500 - Fix XSS - alpha'' 100
     \<noteq> Inr True"
proof -
  have l: "events_list calendar_earlier_match ''m'' = Some [event_at 100, event_at 200]"
    by (simp add: event_at_def calendar_earlier_match_def calendar_ok_def)
  have up: "get_upcoming_events calendar_earlier_match ''m''
              = Inr [(''500 - Fix XSS - alpha'', event_at 200)]"
    by (simp add: event_at_def calendar_earlier_match_def calendar_ok_def run_simps)
  have f: "find (\<lambda>ev. summary ev = Some ''500 - Fix XSS - alpha'') (rev [event_at 100, event_at 200])
             = Some (event_at 200)"
    by (simp add: event_at_def)
  have n: "start_dateTime (event_at 200) \<noteq> Some 100" by (simp add: event_at_def)
  from get_upcoming_events_keeps_last_summary[OF l up, of "''500 - Fix XSS - alpha''" 100] f n l up show ?thesis by simp
qed

subsection \<open>C10: rows whose time has passed\<close>

text \<open>
  C10 fails on the code. The query of \<^verbatim>\<open>get_upcoming_entries\<close> compares the
  column, which holds the text of a date, with a number, and the comparison is true of
  every row. Here the completion time of the only cached task, 3700, has passed at the
  current time 4000, and the three requests are answered 200 with no entry: the row is
  returned, given to \<^verbatim>\<open>compare_and_update\<close>, and the task's event and row are
  deleted.
\<close>

theorem past_row_is_returned_and_deleted:
  "max_completion_time (task1 (Some ''ev1'')) = 3700 \<and> now calendar_late = 4000 \<and>
   timestamp_column (Row (task1 (Some ''ev1''))) = SqlText 3700 \<and>
   get_upcoming_entries (now calendar_late) [Row (task1 (Some ''ev1''))]
     = [Row (task1 (Some ''ev1''))] \<and>
   main calendar_late calendars (Response 200 []) (Response 200 []) (Response 200 [])
        \<lparr> tasks = [Row (task1 (Some ''ev1''))], targets = [], patch_verifications = [] \<rparr>
   = (None, \<lparr> tasks = [], targets = [], patch_verifications = [] \<rparr>,
      [DeleteEvent ''m'' ''t1'' ''ev1'' True, SaveToDb task (task1 (Some ''ev1'')) True])"
  by (simp add: main_def calendars_def fetch_tasks_def fetch_targets_def
        fetch_patch_verifications_def get_upcoming_entries_def task1_def calendar_late_def
        calendar_ok_def run_simps)

text \<open>
  Read off the run above: the past row is among the rows returned, the table is empty
  at the end, and the two calls are the delete of the event and the delete of the row.
\<close>

theorem past_row_is_returned_and_deleted_witness:
  "Row (task1 (Some ''ev1'')) \<in> set (get_upcoming_entries (now calendar_late) [Row (task1 (Some ''ev1''))]) \<and>
   tasks (fst (snd (main calendar_late calendars (Response 200 []) (Response 200 []) (Response 200 [])
        \<lparr> tasks = [Row (task1 (Some ''ev1''))], targets = [], patch_verifications = [] \<rparr>))) = [] \<and>
   list_all deletes (snd (snd (main calendar_late calendars (Response 200 []) (Response 200 [])
        (Response 200 [])
        \<lparr> tasks = [Row (task1 (Some ''ev1''))], targets = [], patch_verifications = [] \<rparr>)))"
proof -
  from past_row_is_returned_and_deleted
  have g: "get_upcoming_entries (now calendar_late) [Row (task1 (Some ''ev1''))]
             = [Row (task1 (Some ''ev1''))]"
    and m: "main calendar_late calendars (Response 200 []) (Response 200 []) (Response 200 [])
        \<lparr> tasks = [Row (task1 (Some ''ev1''))], targets = [], patch_verifications = [] \<rparr>
      = (None, \<lparr> tasks = [], targets = [], patch_verifications = [] \<rparr>,
         [DeleteEvent ''m'' ''t1'' ''ev1'' True, SaveToDb task (task1 (Some ''ev1'')) True])"
    by blast+
  show ?thesis by (simp add: g m)
qed

end
